theory Spec2Isabelle
  imports Complex_Main
begin

section \<open>Directions and event types\<close>

text \<open>
  The \<open>directions\<close> enumeration of the utilities module: four cardinal and four
  composite (diagonal) directions. \<open>push.js\<close> writes the cardinal ones by name
  (\<open>"up"\<close>, \<open>"down"\<close>, \<open>"left"\<close>, \<open>"right"\<close>).
\<close>

datatype directions = Right | Down_right | Down | Down_left | Left | Up_left | Up | Up_right

text \<open>The enum \<open>event_types\<close> of \<open>TileEvent.ts\<close>.\<close>

datatype event_types =
  CLIMB | SPEED | TELEPORT | JUMP | STEP | COLLISION | SLIDER | EVENT_TRIGGER | ICE_SLIDE

text \<open>
  Modelled from the spec: \<open>split_direction\<close> of the utilities module, which is not
  among the source files. The spec says that a composite direction is split into its
  constituent cardinal directions and that a pure cardinal direction splits into exactly
  itself.
\<close>

fun split_direction :: "directions \<Rightarrow> directions list" where
  "split_direction Down_right = [Down, Right]"
| "split_direction Down_left = [Down, Left]"
| "split_direction Up_left = [Up, Left]"
| "split_direction Up_right = [Up, Right]"
| "split_direction d = [d]"

section \<open>The location key codec\<close>

text \<open>
  \<open>TileEvent.get_location_key(x, y)\<close> is the template literal \<open>`${x}_${y}`\<close>. Tile
  coordinates are integers; a JavaScript number that is an integer (of magnitude below
  \<open>10\<^sup>2\<^sup>1\<close>) prints as its decimal digits, with a leading minus sign when negative.
\<close>

definition digit_char :: "nat \<Rightarrow> char" where
  "digit_char d = ''0123456789'' ! d"

function string_of_nat :: "nat \<Rightarrow> string" where
  "string_of_nat n =
     (if n < 10 then [digit_char n] else string_of_nat (n div 10) @ [digit_char (n mod 10)])"
  by pat_completeness auto
termination
  by (relation "measure id") auto

declare string_of_nat.simps [simp del]

definition string_of_int :: "int \<Rightarrow> string" where
  "string_of_int i = (if i < 0 then CHR ''-'' # string_of_nat (nat (- i)) else string_of_nat (nat i))"

definition get_location_key :: "int \<Rightarrow> int \<Rightarrow> string" where
  "get_location_key x y = string_of_int x @ ''_'' @ string_of_int y"

section \<open>JavaScript arrays of booleans\<close>

text \<open>
  The field \<open>active\<close> is a JavaScript array. An array is an object: it has a value (or
  nothing, \<open>undefined\<close>) under every integer key, and a \<open>length\<close>. Reading a key that
  holds nothing gives \<open>undefined\<close>; writing a key at or beyond \<open>length\<close> extends the
  array; writing a negative key stores a property under that key and leaves \<open>length\<close>
  alone. The code indexes with the result of \<open>indexOf\<close>, which is \<open>-1\<close> for a missing
  element.
\<close>

record bool_array =
  props :: "int \<Rightarrow> bool option"
  len :: nat

definition array_get :: "bool_array \<Rightarrow> int \<Rightarrow> bool option" where
  "array_get a i = props a i"

definition array_set :: "bool_array \<Rightarrow> int \<Rightarrow> bool \<Rightarrow> bool_array" where
  "array_set a i v =
     a\<lparr>props := (props a)(i := Some v),
       len := (if 0 \<le> i then max (len a) (nat i + 1) else len a)\<rparr>"

text \<open>\<open>new Array(n).fill(v)\<close>.\<close>

definition array_fill :: "nat \<Rightarrow> bool \<Rightarrow> bool_array" where
  "array_fill n v = \<lparr>props = (\<lambda>i. if 0 \<le> i \<and> i < int n then Some v else None), len = n\<rparr>"

text \<open>
  \<open>a.map(() => v)\<close>: a fresh array of the same length; holes stay holes, and properties
  that are not indices are not copied.
\<close>

definition array_map_const :: "bool_array \<Rightarrow> bool \<Rightarrow> bool_array" where
  "array_map_const a v =
     \<lparr>props = (\<lambda>i. if 0 \<le> i \<and> i < int (len a) \<and> props a i \<noteq> None then Some v else None),
      len = len a\<rparr>"

text \<open>Truthiness of what a read returns: \<open>undefined\<close> and \<open>false\<close> are falsy.\<close>

definition truthy :: "bool option \<Rightarrow> bool" where
  "truthy v = (v = Some True)"

text \<open>\<open>Array.prototype.indexOf\<close>: the first index of the element, or \<open>-1\<close>.\<close>

fun indexOf :: "'a list \<Rightarrow> 'a \<Rightarrow> int" where
  "indexOf [] v = - 1"
| "indexOf (x # xs) v =
     (if x = v then 0 else (let r = indexOf xs v in if r < 0 then - 1 else r + 1))"

section \<open>Tile events\<close>

text \<open>
  The class \<open>TileEvent\<close>. The fields \<open>game\<close> and \<open>data\<close> are handles to the engine and
  play no part in the operations below. The owner is a reference or \<open>null\<close>.
\<close>

record tile_event =
  type_te :: event_types
  x_te :: int
  y_te :: int
  location_key :: string
  id_te :: nat
  activation_collision_layers :: "int list"
  activation_directions :: "directions list"
  dynamic :: bool
  active :: bool_array
  affected_by_reveal :: bool_array
  origin_interactable_object :: "nat option"
  collision_layer_shift_from_source :: int

text \<open>The static members \<open>TileEvent.id_incrementer\<close> and \<open>TileEvent.events\<close>.\<close>

record tile_event_statics =
  id_incrementer :: nat
  events :: "nat \<rightharpoonup> tile_event"

text \<open>
  Constructor arguments that may be missing, a single value or an array. The directions
  argument is taken after \<open>map_directions\<close> (utilities module) has been applied to it.
\<close>

datatype ('a, 'b) param = Undefined | Single 'a | Many 'b

datatype directions_param =
  Directions_undefined | Directions_all | Direction directions | Direction_list "directions list"

definition layers_of_param :: "(int, int list) param \<Rightarrow> int list" where
  "layers_of_param p =
     (case p of Undefined \<Rightarrow> [0]
      | Single n \<Rightarrow> (if n = 0 then [0] else [n])
      | Many ns \<Rightarrow> ns)"

definition directions_of_param :: "directions list \<Rightarrow> directions_param \<Rightarrow> directions list" where
  "directions_of_param all_directions p =
     (case p of Directions_undefined \<Rightarrow> all_directions
      | Directions_all \<Rightarrow> all_directions
      | Direction d \<Rightarrow> [d]
      | Direction_list ds \<Rightarrow> ds)"

definition flags_of_param :: "nat \<Rightarrow> bool \<Rightarrow> (bool, bool_array) param \<Rightarrow> bool_array" where
  "flags_of_param n dflt p =
     (case p of Undefined \<Rightarrow> array_fill n dflt
      | Single b \<Rightarrow> array_fill n b
      | Many a \<Rightarrow> a)"

text \<open>
  The constructor. \<open>all_directions\<close> is the result of \<open>get_directions(true)\<close> of the
  utilities module. It returns the new event and the updated static members.
\<close>

definition constructor_te ::
  "directions list \<Rightarrow> event_types \<Rightarrow> int \<Rightarrow> int \<Rightarrow> directions_param \<Rightarrow>
   (int, int list) param \<Rightarrow> bool \<Rightarrow> (bool, bool_array) param \<Rightarrow> nat option \<Rightarrow>
   (bool, bool_array) param \<Rightarrow> tile_event_statics \<Rightarrow> tile_event \<times> tile_event_statics" where
  "constructor_te all_directions ty x y dirs layers dyn act origin reveal st =
     (let ds = directions_of_param all_directions dirs;
          e = \<lparr>type_te = ty, x_te = x, y_te = y,
               location_key = get_location_key x y,
               id_te = id_incrementer st,
               activation_collision_layers = layers_of_param layers,
               activation_directions = ds,
               dynamic = dyn,
               active = flags_of_param (length ds) True act,
               affected_by_reveal = flags_of_param (length ds) False reveal,
               origin_interactable_object = origin,
               collision_layer_shift_from_source = 0\<rparr>
      in (e, \<lparr>id_incrementer = id_incrementer st + 1, events = (events st)(id_te e \<mapsto> e)\<rparr>))"

definition reset :: "tile_event_statics \<Rightarrow> tile_event_statics" where
  "reset st = \<lparr>id_incrementer = 0, events = Map.empty\<rparr>"

fun is_active_loop :: "tile_event \<Rightarrow> directions list \<Rightarrow> bool" where
  "is_active_loop e [] = False"
| "is_active_loop e (p # ps) =
     (if truthy (array_get (active e) (indexOf (activation_directions e) p)) then True
      else is_active_loop e ps)"

definition is_active :: "tile_event \<Rightarrow> directions \<Rightarrow> bool" where
  "is_active e d = is_active_loop e (split_direction d)"

definition activate_at :: "tile_event \<Rightarrow> directions \<Rightarrow> tile_event" where
  "activate_at e d = e\<lparr>active := array_set (active e) (indexOf (activation_directions e) d) True\<rparr>"

definition deactivate_at :: "tile_event \<Rightarrow> directions \<Rightarrow> tile_event" where
  "deactivate_at e d = e\<lparr>active := array_set (active e) (indexOf (activation_directions e) d) False\<rparr>"

definition activate :: "tile_event \<Rightarrow> tile_event" where
  "activate e = e\<lparr>active := array_map_const (active e) True\<rparr>"

definition deactivate :: "tile_event \<Rightarrow> tile_event" where
  "deactivate e = e\<lparr>active := array_map_const (active e) False\<rparr>"

text \<open>
  Following the spec's words: \<open>active\<close> is a sequence of booleans parallel to
  \<open>activation_directions\<close>, and the flag of a direction is the one at the index
  corresponding to the direction in \<open>activation_directions\<close>. A direction that is not
  among the activation directions has no flag.
\<close>

definition flag_set :: "tile_event \<Rightarrow> directions \<Rightarrow> bool" where
  "flag_set e p =
     (p \<in> set (activation_directions e) \<and>
      props (active e) (indexOf (activation_directions e) p) = Some True)"

text \<open>A run of constructor calls, each with its own arguments.\<close>

datatype event_args =
  Event_args event_types int int directions_param "(int, int list) param" bool
    "(bool, bool_array) param" "nat option" "(bool, bool_array) param"

fun new_tile_event ::
  "directions list \<Rightarrow> event_args \<Rightarrow> tile_event_statics \<Rightarrow> tile_event \<times> tile_event_statics" where
  "new_tile_event all_directions (Event_args ty x y dirs layers dyn act origin reveal) st =
     constructor_te all_directions ty x y dirs layers dyn act origin reveal st"

fun create_events ::
  "directions list \<Rightarrow> event_args list \<Rightarrow> tile_event_statics \<Rightarrow>
   tile_event list \<times> tile_event_statics" where
  "create_events all_directions [] st = ([], st)"
| "create_events all_directions (a # as) st =
     (let (e, st1) = new_tile_event all_directions a st;
          (es, st2) = create_events all_directions as st1
      in (e # es, st2))"

text \<open>
  Modelled from the spec: the map load, whose code is not among the source files. The spec
  says that the static members are reset exactly once per map load, after which the
  events of the map are created.
\<close>

definition load_map ::
  "directions list \<Rightarrow> event_args list \<Rightarrow> tile_event_statics \<Rightarrow>
   tile_event list \<times> tile_event_statics" where
  "load_map all_directions as st = create_events all_directions as (reset st)"

section \<open>The push coordinator\<close>

text \<open>
  Tile events are objects shared between the per-map registry, the owning interactable
  object and the loops that reconcile activation flags, so they live in a store: a
  reference names an object, and a mutation of the object is seen through every
  reference to it.
\<close>

type_synonym ref = nat

text \<open>An element of the list that \<open>get_surroundings\<close> returns.\<close>

record surrounding =
  x_sur :: int
  y_sur :: int
  direction :: directions

text \<open>The bodies whose visual transition a push schedules.\<close>

datatype body = Object_body | Shadow | Hero_body

text \<open>
  Calls into collaborators outside the coordinator, in the order they are made: the
  physics engine, the map store that owns the registry (one entry for each assignment
  to, or deletion of, a bucket), the caller's hooks and the tween engine. Pixel
  destinations of the tweens are not recorded.
\<close>

datatype effect =
  Physics_pause | Physics_resume | Registry_write string | Before_move | Tween body | Push_end

datatype error = TypeError

text \<open>
  The state that \<open>push.js\<close> reads and writes: the fields of \<open>data\<close> it uses, the registry
  \<open>maps[data.map_name].events\<close>, the store of tile events and the log of outside calls.
  \<open>hero_x\<close> and \<open>hero_y\<close> are \<open>data.hero.x\<close> and \<open>data.hero.y\<close>; pixel positions are
  real numbers (the value \<open>NaN\<close> is left out), tile coordinates are integers.
\<close>

record data =
  trying_to_push :: bool
  trying_to_push_direction :: directions
  actual_direction :: directions
  casting_psynergy :: bool
  jumping :: bool
  push_timer :: "nat option"
  pushing :: bool
  actual_action :: string
  hero_x :: real
  hero_y :: real
  map_events :: "string \<rightharpoonup> ref list"
  heap :: "ref \<Rightarrow> tile_event"
  calls :: "effect list"

text \<open>
  The interactable object: \<open>sprite_x\<close>, \<open>sprite_y\<close> are
  \<open>interactable_object_sprite.x\<close> and \<open>.y\<close>; \<open>object_events\<close> is what \<open>get_events()\<close>
  returns; \<open>jump_collide_layer_shift\<close> is \<open>events_info.jump.collide_layer_shift\<close>.
\<close>

record interactable_object =
  sprite_x :: real
  sprite_y :: real
  object_events :: "ref list"
  jump_collide_layer_shift :: int
  base_collider_layer :: int
  current_x :: int
  current_y :: int

text \<open>
  The helpers that \<open>push.js\<close> imports and that are not among the source files:
  \<open>get_surroundings\<close> and \<open>get_opposite_direcion\<close> of the utilities module and
  \<open>JumpEvent.active_jump_surroundings\<close>. The coordinator is parameterised by them.
\<close>

record utils =
  get_surroundings :: "int \<Rightarrow> int \<Rightarrow> bool \<Rightarrow> int \<Rightarrow> surrounding list"
  get_opposite_direcion :: "directions \<Rightarrow> directions"
  active_jump_surroundings :: "data \<Rightarrow> surrounding list \<Rightarrow> int \<Rightarrow> data"

text \<open>
  The pending \<open>Promise.all(promises).then(...)\<close> of a push: the bodies whose promise is
  not resolved yet, and whether the continuation was given a \<open>push_end\<close> hook.
\<close>

record promise_all =
  unresolved :: "body list"
  then_push_end :: bool

subsection \<open>Direction validation\<close>

definition quadrant :: "real \<Rightarrow> real \<Rightarrow> real \<Rightarrow> directions option" where
  "quadrant positive_limit negative_limit hy =
     (if - hy \<ge> positive_limit \<and> - hy \<ge> negative_limit then Some Down
      else if - hy \<le> positive_limit \<and> - hy \<ge> negative_limit then Some Left
      else if - hy \<le> positive_limit \<and> - hy \<le> negative_limit then Some Up
      else if - hy \<ge> positive_limit \<and> - hy \<le> negative_limit then Some Right
      else None)"

definition positive_limit :: "real \<Rightarrow> real \<Rightarrow> real \<Rightarrow> real" where
  "positive_limit hx sx sy = hx + (- sy - sx)"

definition negative_limit :: "real \<Rightarrow> real \<Rightarrow> real \<Rightarrow> real" where
  "negative_limit hx sx sy = - hx + (- sy + sx)"

definition expected_position :: "data \<Rightarrow> interactable_object \<Rightarrow> directions option" where
  "expected_position s io =
     quadrant (positive_limit (hero_x s) (sprite_x io) (sprite_y io))
              (negative_limit (hero_x s) (sprite_x io) (sprite_y io)) (hero_y s)"

subsection \<open>Relocation\<close>

text \<open>The \<open>switch\<close> on the requested direction; it has no default case.\<close>

definition event_shift :: "directions \<Rightarrow> int \<times> int" where
  "event_shift d =
     (case d of Up \<Rightarrow> (0, - 1) | Down \<Rightarrow> (0, 1) | Left \<Rightarrow> (- 1, 0) | Right \<Rightarrow> (1, 0)
      | _ \<Rightarrow> (0, 0))"

text \<open>
  Lines 62 to 67: the bucket under the event's key is replaced by its filter, and deleted
  when that is empty. Calling \<open>filter\<close> on a missing bucket (\<open>undefined\<close>) throws.
\<close>

definition remove_event :: "ref \<Rightarrow> data \<Rightarrow> error + data" where
  "remove_event ev s =
     (let k = location_key (heap s ev) in
      case map_events s k of
        None \<Rightarrow> Inl TypeError
      | Some b \<Rightarrow>
          (let b' = filter (\<lambda>e. id_te (heap s e) \<noteq> id_te (heap s ev)) b;
               s1 = s\<lparr>map_events := (map_events s)(k \<mapsto> b'),
                      calls := calls s @ [Registry_write k]\<rparr>
           in Inr (if b' = []
                   then s1\<lparr>map_events := (map_events s1)(k := None),
                           calls := calls s1 @ [Registry_write k]\<rparr>
                   else s1)))"

text \<open>Lines 76 to 79: the bucket is created when absent, then the event is appended.\<close>

definition insert_event :: "string \<Rightarrow> ref \<Rightarrow> data \<Rightarrow> data" where
  "insert_event k ev s =
     (case map_events s k of
        None \<Rightarrow> s\<lparr>map_events := (map_events s)(k \<mapsto> [ev]),
                  calls := calls s @ [Registry_write k, Registry_write k]\<rparr>
      | Some b \<Rightarrow> s\<lparr>map_events := (map_events s)(k \<mapsto> b @ [ev]),
                    calls := calls s @ [Registry_write k]\<rparr>)"

text \<open>Lines 87 to 95: the loop over one bucket of an old surrounding tile.\<close>

fun deactivate_bucket ::
  "utils \<Rightarrow> int \<Rightarrow> directions \<Rightarrow> ref list \<Rightarrow> (ref \<Rightarrow> tile_event) \<Rightarrow> (ref \<Rightarrow> tile_event)" where
  "deactivate_bucket U target_layer d [] h = h"
| "deactivate_bucket U target_layer d (r # rs) h =
     deactivate_bucket U target_layer d rs
       (if type_te (h r) = JUMP
        then (if target_layer \<in> set (activation_collision_layers (h r)) \<and> dynamic (h r) = False
              then h(r := deactivate_at (h r) (get_opposite_direcion U d))
              else h)
        else h)"

text \<open>Lines 83 to 97: the loop over the old surrounding tiles.\<close>

fun deactivate_old_surroundings :: "utils \<Rightarrow> int \<Rightarrow> surrounding list \<Rightarrow> data \<Rightarrow> data" where
  "deactivate_old_surroundings U target_layer [] s = s"
| "deactivate_old_surroundings U target_layer (old_surrounding # rest) s =
     deactivate_old_surroundings U target_layer rest
       (case map_events s (get_location_key (x_sur old_surrounding) (y_sur old_surrounding)) of
          None \<Rightarrow> s
        | Some b \<Rightarrow>
            s\<lparr>heap := deactivate_bucket U target_layer (direction old_surrounding) b (heap s)\<rparr>)"

text \<open>
  Lines 61 to 81 of one iteration: the event leaves its bucket, takes its new coordinates
  and key, enters the new bucket, and the jump events around the new tile are activated.
\<close>

definition move_event ::
  "utils \<Rightarrow> interactable_object \<Rightarrow> int \<Rightarrow> int \<Rightarrow> ref \<Rightarrow> data \<Rightarrow> error + data" where
  "move_event U io event_shift_x event_shift_y ev s =
     (case remove_event ev s of
        Inl e \<Rightarrow> Inl e
      | Inr s1 \<Rightarrow>
          (let old_x = x_te (heap s1 ev);
               old_y = y_te (heap s1 ev);
               new_x = old_x + event_shift_x;
               new_y = old_y + event_shift_y;
               new_event_location_key = get_location_key new_x new_y;
               s2 = s1\<lparr>heap := (heap s1)(ev := (heap s1 ev)
                        \<lparr>x_te := new_x, y_te := new_y,
                         location_key := new_event_location_key\<rparr>)\<rparr>;
               s3 = insert_event new_event_location_key ev s2;
               new_surroundings = get_surroundings U new_x new_y False 2
           in Inr (active_jump_surroundings U s3 new_surroundings
                     (jump_collide_layer_shift io + base_collider_layer io))))"

text \<open>One whole iteration of the loop over the object's events (lines 61 to 97).\<close>

definition relocate_event ::
  "utils \<Rightarrow> interactable_object \<Rightarrow> int \<Rightarrow> int \<Rightarrow> ref \<Rightarrow> data \<Rightarrow> error + data" where
  "relocate_event U io event_shift_x event_shift_y ev s =
     (let old_x = x_te (heap s ev); old_y = y_te (heap s ev) in
      case move_event U io event_shift_x event_shift_y ev s of
        Inl e \<Rightarrow> Inl e
      | Inr s4 \<Rightarrow>
          Inr (deactivate_old_surroundings U
                 (jump_collide_layer_shift io + base_collider_layer io)
                 (get_surroundings U old_x old_y False 2) s4))"

fun relocate_events ::
  "utils \<Rightarrow> interactable_object \<Rightarrow> int \<Rightarrow> int \<Rightarrow> ref list \<Rightarrow> data \<Rightarrow> error + data" where
  "relocate_events U io event_shift_x event_shift_y [] s = Inr s"
| "relocate_events U io event_shift_x event_shift_y (ev # evs) s =
     (case relocate_event U io event_shift_x event_shift_y ev s of
        Inl e \<Rightarrow> Inl e
      | Inr s' \<Rightarrow> relocate_events U io event_shift_x event_shift_y evs s')"

subsection \<open>The three entry points\<close>

text \<open>
  \<open>fire_push_movement(data, interactable_object, push_end, before_move, target_only)\<close>.
  The two hooks are given as whether one was supplied; calling a hook is an outside
  call, and what the caller's code does in it is not part of the coordinator. The
  result is the new state, the object with its updated tile position and, when the push
  went ahead, the pending join on the scheduled transitions. A \<open>TypeError\<close> thrown by
  the relocation ends the call.
\<close>

definition fire_push_movement ::
  "utils \<Rightarrow> data \<Rightarrow> interactable_object \<Rightarrow> bool \<Rightarrow> bool \<Rightarrow> bool \<Rightarrow>
   error + (data \<times> interactable_object \<times> promise_all option)" where
  "fire_push_movement U s io push_end before_move target_only =
     (let expected = (if \<not> target_only then expected_position s io else None) in
      if target_only \<or> expected = Some (trying_to_push_direction s)
      then
        (let s1 = (if \<not> target_only then s\<lparr>pushing := True, actual_action := ''push''\<rparr> else s);
             s2 = s1\<lparr>calls := calls s1 @ [Physics_pause]\<rparr>;
             event_shift_x = fst (event_shift (trying_to_push_direction s));
             event_shift_y = snd (event_shift (trying_to_push_direction s))
         in case relocate_events U io event_shift_x event_shift_y (object_events io) s2 of
              Inl e \<Rightarrow> Inl e
            | Inr s3 \<Rightarrow>
                (let sprites = [Object_body] @ (if \<not> target_only then [Shadow, Hero_body] else []);
                     io' = io\<lparr>current_x := current_x io + event_shift_x,
                              current_y := current_y io + event_shift_y\<rparr>;
                     s4 = s3\<lparr>calls := calls s3 @ (if before_move then [Before_move] else [])
                                         @ map Tween sprites\<rparr>
                 in Inr (s4, io', Some \<lparr>unresolved = sprites, then_push_end = push_end\<rparr>)))
      else Inr (s, io, None))"

definition normal_push ::
  "utils \<Rightarrow> data \<Rightarrow> interactable_object \<Rightarrow>
   error + (data \<times> interactable_object \<times> promise_all option)" where
  "normal_push U s io =
     (if trying_to_push s \<and> trying_to_push_direction s \<in> set [Up, Down, Left, Right]
         \<and> trying_to_push_direction s = actual_direction s
         \<and> \<not> casting_psynergy s \<and> \<not> jumping s
      then (case fire_push_movement U s io False False False of
              Inl e \<Rightarrow> Inl e
            | Inr (s', io', p) \<Rightarrow> Inr (s'\<lparr>trying_to_push := False, push_timer := None\<rparr>, io', p))
      else Inr (s\<lparr>trying_to_push := False, push_timer := None\<rparr>, io, None))"

definition target_only_push ::
  "utils \<Rightarrow> data \<Rightarrow> interactable_object \<Rightarrow> bool \<Rightarrow> bool \<Rightarrow>
   error + (data \<times> interactable_object \<times> promise_all option)" where
  "target_only_push U s io before_move push_end = fire_push_movement U s io push_end before_move True"

subsection \<open>Completion of the visual transitions\<close>

text \<open>
  The tween of a body signals completion and resolves that body's promise. When the last
  promise is resolved the continuation of \<open>Promise.all\<close> runs: \<open>pushing\<close> is cleared,
  physics resumes and the \<open>push_end\<close> hook, if any, is called.
\<close>

definition tween_complete :: "body \<Rightarrow> data \<times> promise_all option \<Rightarrow> data \<times> promise_all option" where
  "tween_complete b sp =
     (case snd sp of
        None \<Rightarrow> sp
      | Some p \<Rightarrow>
          (let rest = removeAll b (unresolved p) in
           if rest = []
           then ((fst sp)\<lparr>pushing := False,
                          calls := calls (fst sp) @ [Physics_resume]
                                   @ (if then_push_end p then [Push_end] else [])\<rparr>, None)
           else (fst sp, Some (p\<lparr>unresolved := rest\<rparr>))))"

fun tweens_complete :: "body list \<Rightarrow> data \<times> promise_all option \<Rightarrow> data \<times> promise_all option" where
  "tweens_complete [] sp = sp"
| "tweens_complete (b # bs) sp = tweens_complete bs (tween_complete b sp)"

section \<open>Properties of states\<close>

text \<open>Membership of an event in the bucket under a key; a missing bucket has no members.\<close>

definition in_bucket :: "data \<Rightarrow> string \<Rightarrow> ref \<Rightarrow> bool" where
  "in_bucket s k r = (case map_events s k of None \<Rightarrow> False | Some b \<Rightarrow> r \<in> set b)"

text \<open>
  The registry invariant of the data model: no bucket is empty, and an event sits only in
  the bucket under its own \<open>location_key\<close>.
\<close>

definition registry_inv :: "data \<Rightarrow> bool" where
  "registry_inv s =
     ((\<forall>k b. map_events s k = Some b \<longrightarrow> b \<noteq> []) \<and>
      (\<forall>k b r. map_events s k = Some b \<longrightarrow> r \<in> set b \<longrightarrow> location_key (heap s r) = k))"

text \<open>Two states that differ at most in the activation flags of their events.\<close>

definition flags_only :: "data \<Rightarrow> data \<Rightarrow> bool" where
  "flags_only s s' = (\<exists>g. s' = s\<lparr>heap := (\<lambda>r. (heap s r)\<lparr>active := g r\<rparr>)\<rparr>)"

text \<open>
  What the development assumes of \<open>JumpEvent.active_jump_surroundings\<close>: it activates
  events, so it changes nothing but activation flags.
\<close>

definition activation_only :: "utils \<Rightarrow> bool" where
  "activation_only U = (\<forall>s ss l. flags_only s (active_jump_surroundings U s ss l))"

text \<open>
  Every event of a set (the events of the map) is in the bucket under its
  \<open>location_key\<close>.
\<close>

definition registered :: "ref set \<Rightarrow> data \<Rightarrow> bool" where
  "registered E s = (\<forall>r \<in> E. in_bucket s (location_key (heap s r)) r)"

text \<open>
  Any sequence of pushes of objects whose events are among the events \<open>E\<close> of the map.
  Between two pushes the rest of the game may change the fields of \<open>data\<close> (input
  handling sets the request, a completed join clears \<open>pushing\<close>), but not the registry
  nor the events.
\<close>

inductive pushes :: "ref set \<Rightarrow> utils \<Rightarrow> data \<Rightarrow> data \<Rightarrow> bool"
  for E :: "ref set" and U :: utils and s0 :: data where
  pushes_start: "pushes E U s0 s0"
| pushes_other:
    "pushes E U s0 s \<Longrightarrow> map_events s' = map_events s \<Longrightarrow> heap s' = heap s \<Longrightarrow> pushes E U s0 s'"
| pushes_normal:
    "pushes E U s0 s \<Longrightarrow> set (object_events io) \<subseteq> E \<Longrightarrow>
     normal_push U s io = Inr (s', io', p) \<Longrightarrow> pushes E U s0 s'"
| pushes_target_only:
    "pushes E U s0 s \<Longrightarrow> set (object_events io) \<subseteq> E \<Longrightarrow>
     target_only_push U s io before_move push_end = Inr (s', io', p) \<Longrightarrow> pushes E U s0 s'"

section \<open>A concrete scene\<close>

text \<open>
  Modelled from the spec: \<open>get_opposite_direcion\<close> of the utilities module, the
  opposite-direction lookup.
\<close>

fun opposite :: "directions \<Rightarrow> directions" where
  "opposite Right = Left"
| "opposite Down_right = Up_left"
| "opposite Down = Up"
| "opposite Down_left = Up_right"
| "opposite Left = Right"
| "opposite Up_left = Down_right"
| "opposite Up = Down"
| "opposite Up_right = Down_left"

text \<open>
  Modelled from the spec: \<open>get_surroundings\<close> of the utilities module, the surrounding
  tile coordinates at the given radius, each with its offset direction.
\<close>

definition surroundings :: "int \<Rightarrow> int \<Rightarrow> bool \<Rightarrow> int \<Rightarrow> surrounding list" where
  "surroundings x y with_diagonals shift =
     [\<lparr>x_sur = x - shift, y_sur = y, direction = Left\<rparr>,
      \<lparr>x_sur = x + shift, y_sur = y, direction = Right\<rparr>,
      \<lparr>x_sur = x, y_sur = y - shift, direction = Up\<rparr>,
      \<lparr>x_sur = x, y_sur = y + shift, direction = Down\<rparr>]
     @ (if with_diagonals
        then [\<lparr>x_sur = x - shift, y_sur = y - shift, direction = Up_left\<rparr>,
              \<lparr>x_sur = x + shift, y_sur = y - shift, direction = Up_right\<rparr>,
              \<lparr>x_sur = x - shift, y_sur = y + shift, direction = Down_left\<rparr>,
              \<lparr>x_sur = x + shift, y_sur = y + shift, direction = Down_right\<rparr>]
        else [])"

text \<open>
  Modelled from the spec: \<open>JumpEvent.active_jump_surroundings\<close>, which activates any
  Jump-type event on a surrounding tile whose collision layers include the target layer.
\<close>

fun activate_bucket :: "int \<Rightarrow> ref list \<Rightarrow> (ref \<Rightarrow> tile_event) \<Rightarrow> (ref \<Rightarrow> tile_event)" where
  "activate_bucket target_layer [] h = h"
| "activate_bucket target_layer (r # rs) h =
     activate_bucket target_layer rs
       (if type_te (h r) = JUMP \<and> target_layer \<in> set (activation_collision_layers (h r))
        then h(r := activate (h r)) else h)"

fun activate_surroundings :: "data \<Rightarrow> surrounding list \<Rightarrow> int \<Rightarrow> data" where
  "activate_surroundings s [] target_layer = s"
| "activate_surroundings s (sr # rest) target_layer =
     activate_surroundings
       (case map_events s (get_location_key (x_sur sr) (y_sur sr)) of
          None \<Rightarrow> s
        | Some b \<Rightarrow> s\<lparr>heap := activate_bucket target_layer b (heap s)\<rparr>)
       rest target_layer"

definition scene_utils :: utils where
  "scene_utils =
     \<lparr>get_surroundings = surroundings, get_opposite_direcion = opposite,
      active_jump_surroundings = activate_surroundings\<rparr>"

text \<open>
  The scene of the spec's scenario: an object owning two events at \<open>(3,3)\<close> and \<open>(3,4)\<close>,
  a static jump event two tiles to the left of the first and a dynamic one two tiles
  above it, and the hero standing left of the object, facing right.
\<close>

definition scene_event :: "event_types \<Rightarrow> int \<Rightarrow> int \<Rightarrow> nat \<Rightarrow> bool \<Rightarrow> tile_event" where
  "scene_event ty x y i dyn =
     \<lparr>type_te = ty, x_te = x, y_te = y, location_key = get_location_key x y, id_te = i,
      activation_collision_layers = [0],
      activation_directions = [Right, Down, Left, Up],
      dynamic = dyn, active = array_fill 4 True, affected_by_reveal = array_fill 4 False,
      origin_interactable_object = None, collision_layer_shift_from_source = 0\<rparr>"

definition scene_heap :: "ref \<Rightarrow> tile_event" where
  "scene_heap =
     (\<lambda>r. scene_event STEP 0 0 r False)
       (0 := scene_event COLLISION 3 3 0 False,
        1 := scene_event COLLISION 3 4 1 False,
        2 := scene_event JUMP 1 3 2 False,
        3 := scene_event JUMP 3 1 3 True)"

definition scene_data :: data where
  "scene_data =
     \<lparr>trying_to_push = True, trying_to_push_direction = Right, actual_direction = Right,
      casting_psynergy = False, jumping = False, push_timer = Some 7, pushing = False,
      actual_action = ''idle'', hero_x = 40, hero_y = 56,
      map_events = [''3_3'' \<mapsto> [0], ''3_4'' \<mapsto> [1], ''1_3'' \<mapsto> [2], ''3_1'' \<mapsto> [3]],
      heap = scene_heap, calls = []\<rparr>"

definition scene_object :: interactable_object where
  "scene_object =
     \<lparr>sprite_x = 56, sprite_y = 56, object_events = [0, 1],
      jump_collide_layer_shift = 0, base_collider_layer = 0,
      current_x = 3, current_y = 3\<rparr>"

text \<open>An event with the single activation direction \<open>up\<close>, inactive.\<close>

definition up_event :: tile_event where
  "up_event =
     \<lparr>type_te = JUMP, x_te = 2, y_te = 3, location_key = get_location_key 2 3, id_te = 0,
      activation_collision_layers = [0], activation_directions = [Up],
      dynamic = False, active = array_fill 1 False, affected_by_reveal = array_fill 1 False,
      origin_interactable_object = None, collision_layer_shift_from_source = 0\<rparr>"

section \<open>Helper lemmas\<close>

subsection \<open>Indices\<close>

lemma indexOf_notin: "v \<notin> set xs \<Longrightarrow> indexOf xs v = - 1"
  by (induction xs) (auto simp: Let_def)

lemma is_active_loop_iff:
  "is_active_loop e ps \<longleftrightarrow>
   (\<exists>p \<in> set ps. truthy (array_get (active e) (indexOf (activation_directions e) p)))"
  by (induction ps) auto

subsection \<open>Activation on events whose array holds nothing true under the key \<open>-1\<close>\<close>

text \<open>
  As long as no true value is stored under the key \<open>-1\<close> of \<open>active\<close> (the constructor
  stores none there when it fills the array itself), \<open>is_active\<close> is true exactly when
  one of the elementary directions has its flag set.
\<close>

lemma constructor_te_no_stray_flag:
  "props (active (fst (constructor_te ad ty x y dirs layers dyn (Single b) origin reveal st))) (- 1)
   = None"
  by (simp add: constructor_te_def Let_def flags_of_param_def array_fill_def)

lemma is_active_iff_flag_set:
  assumes "props (active e) (- 1) \<noteq> Some True"
  shows "is_active e d \<longleftrightarrow> (\<exists>p \<in> set (split_direction d). flag_set e p)"
proof -
  have "truthy (array_get (active e) (indexOf (activation_directions e) p)) = flag_set e p" for p
    using assms indexOf_notin[of p "activation_directions e"]
    by (cases "p \<in> set (activation_directions e)")
       (auto simp: flag_set_def truthy_def array_get_def)
  then show ?thesis by (simp add: is_active_def is_active_loop_iff)
qed

lemma split_direction_cardinal:
  "split_direction Up = [Up] \<and> split_direction Down = [Down] \<and>
   split_direction Left = [Left] \<and> split_direction Right = [Right]"
  by simp

text \<open>
  With a direction that is not an activation direction, \<open>activate_at\<close> and
  \<open>deactivate_at\<close> leave the length and every index of \<open>active\<close> as they were, and
  \<open>deactivate_at\<close> changes no answer of \<open>is_active\<close> on an event that holds nothing true
  under \<open>-1\<close>.
\<close>

lemma missing_direction_keeps_indices:
  assumes "d \<notin> set (activation_directions e)"
  shows "len (active (activate_at e d)) = len (active e) \<and>
         (\<forall>i\<ge>0. props (active (activate_at e d)) i = props (active e) i) \<and>
         len (active (deactivate_at e d)) = len (active e) \<and>
         (\<forall>i\<ge>0. props (active (deactivate_at e d)) i = props (active e) i)"
  using indexOf_notin[OF assms] by (simp add: activate_at_def deactivate_at_def array_set_def)

lemma deactivate_at_missing_direction:
  assumes "d \<notin> set (activation_directions e)" and "props (active e) (- 1) \<noteq> Some True"
  shows "is_active (deactivate_at e d) d' = is_active e d'"
proof -
  have "truthy (array_get (active (deactivate_at e d))
                  (indexOf (activation_directions (deactivate_at e d)) p))
        = truthy (array_get (active e) (indexOf (activation_directions e) p))" for p
    using indexOf_notin[OF assms(1)] assms(2)
    by (simp add: deactivate_at_def array_set_def array_get_def truthy_def)
  then show ?thesis by (simp add: is_active_def is_active_loop_iff)
qed

subsection \<open>Identifiers\<close>

lemma create_events_ids:
  "map id_te (fst (create_events ad as st))
     = [id_incrementer st ..< id_incrementer st + length as]
   \<and> id_incrementer (snd (create_events ad as st)) = id_incrementer st + length as"
proof (induction as arbitrary: st)
  case Nil
  then show ?case by simp
next
  case (Cons a as)
  obtain ty x y dirs layers dyn act origin reveal
    where a: "a = Event_args ty x y dirs layers dyn act origin reveal"
    by (cases a)
  obtain e st1 where c: "new_tile_event ad a st = (e, st1)"
    by (cases "new_tile_event ad a st")
  have e: "id_te e = id_incrementer st" "id_incrementer st1 = id_incrementer st + 1"
    using c by (auto simp: a constructor_te_def Let_def)
  have "[id_incrementer st ..< id_incrementer st + length (a # as)]
        = id_incrementer st # [id_incrementer st1 ..< id_incrementer st1 + length as]"
    using e upt_conv_Cons[of "id_incrementer st" "id_incrementer st + length (a # as)"]
    by (simp del: upt_Suc)
  then show ?case using Cons.IH[of st1] e c
    by (simp add: split_beta del: upt_Suc)
qed

lemma create_events_keeps_older:
  "i < id_incrementer st \<Longrightarrow> events (snd (create_events ad as st)) i = events st i"
proof (induction as arbitrary: st)
  case Nil
  then show ?case by simp
next
  case (Cons a as)
  obtain ty x y dirs layers dyn act origin reveal
    where a: "a = Event_args ty x y dirs layers dyn act origin reveal"
    by (cases a)
  obtain e st1 where c: "new_tile_event ad a st = (e, st1)"
    by (cases "new_tile_event ad a st")
  have e: "id_incrementer st1 = id_incrementer st + 1" "events st1 i = events st i"
    using c Cons.prems by (auto simp: a constructor_te_def Let_def)
  show ?case using Cons.IH[of st1] e c Cons.prems
    by (simp add: split_beta)
qed

lemma create_events_registered:
  "map (events (snd (create_events ad as st))) (map id_te (fst (create_events ad as st)))
   = map Some (fst (create_events ad as st))"
proof (induction as arbitrary: st)
  case Nil
  then show ?case by simp
next
  case (Cons a as)
  obtain ty x y dirs layers dyn act origin reveal
    where a: "a = Event_args ty x y dirs layers dyn act origin reveal"
    by (cases a)
  obtain e st1 where c: "new_tile_event ad a st = (e, st1)"
    by (cases "new_tile_event ad a st")
  have e: "id_te e = id_incrementer st" "id_incrementer st1 = id_incrementer st + 1"
    "events st1 (id_te e) = Some e"
    using c by (auto simp: a constructor_te_def Let_def)
  have "events (snd (create_events ad as st1)) (id_te e) = Some e"
    using create_events_keeps_older[of "id_te e" st1 ad as] e by simp
  then show ?case using Cons.IH[of st1] c
    by (simp add: split_beta)
qed

lemma create_events_dom:
  "dom (events (snd (create_events ad as st)))
   = dom (events st) \<union> {id_incrementer st ..< id_incrementer st + length as}"
proof (induction as arbitrary: st)
  case Nil
  then show ?case by simp
next
  case (Cons a as)
  obtain ty x y dirs layers dyn act origin reveal
    where a: "a = Event_args ty x y dirs layers dyn act origin reveal"
    by (cases a)
  obtain e st1 where c: "new_tile_event ad a st = (e, st1)"
    by (cases "new_tile_event ad a st")
  have e: "id_incrementer st1 = id_incrementer st + 1"
    "dom (events st1) = insert (id_incrementer st) (dom (events st))"
    using c by (auto simp: a constructor_te_def Let_def)
  have "dom (events (snd (create_events ad (a # as) st))) = dom (events (snd (create_events ad as st1)))"
    using c by (simp add: split_beta)
  also have "\<dots> = dom (events st1) \<union> {id_incrementer st1 ..< id_incrementer st1 + length as}"
    by (rule Cons.IH)
  also have "\<dots> = dom (events st) \<union> {id_incrementer st ..< id_incrementer st + length (a # as)}"
    using e by auto
  finally show ?case .
qed

subsection \<open>The codec is injective\<close>

lemma digit_char_code: "d < 10 \<Longrightarrow> (of_char (digit_char d) :: nat) = 48 + d"
proof -
  assume "d < 10"
  then have "d \<in> {0, 1, 2, 3, 4, 5, 6, 7, 8, 9}" by auto
  then show ?thesis by (auto simp: digit_char_def)
qed

lemma digit_char_inj: "d < 10 \<Longrightarrow> d' < 10 \<Longrightarrow> digit_char d = digit_char d' \<Longrightarrow> d = d'"
proof -
  assume "d < 10" "d' < 10" "digit_char d = digit_char d'"
  then have "48 + d = 48 + d'" by (metis digit_char_code)
  then show ?thesis by simp
qed

lemma digit_char_not_separator: "d < 10 \<Longrightarrow> digit_char d \<noteq> CHR ''_'' \<and> digit_char d \<noteq> CHR ''-''"
  using digit_char_code[of d] by auto

lemma string_of_nat_digits: "c \<in> set (string_of_nat n) \<Longrightarrow> \<exists>d<10. c = digit_char d"
proof (induction n rule: string_of_nat.induct)
  case (1 n)
  show ?case
  proof (cases "n < 10")
    case True
    then show ?thesis using "1.prems" by (subst (asm) string_of_nat.simps) auto
  next
    case False
    then have "c \<in> set (string_of_nat (n div 10)) \<or> c = digit_char (n mod 10)"
      using "1.prems" by (subst (asm) string_of_nat.simps) auto
    then show ?thesis using "1.IH"[OF False] by (metis mod_less_divisor zero_less_numeral)
  qed
qed

lemma string_of_nat_nonempty: "string_of_nat n \<noteq> []"
  by (subst string_of_nat.simps) simp

lemma string_of_nat_inj: "string_of_nat n = string_of_nat m \<Longrightarrow> n = m"
proof (induction n arbitrary: m rule: string_of_nat.induct)
  case (1 n)
  show ?case
  proof (cases "n < 10")
    case True
    then have n: "string_of_nat n = [digit_char n]" by (subst string_of_nat.simps) simp
    show ?thesis
    proof (cases "m < 10")
      case m: True
      then have "string_of_nat m = [digit_char m]" by (subst string_of_nat.simps) simp
      then show ?thesis using n "1.prems" True m digit_char_inj by simp
    next
      case False
      then have "string_of_nat m = string_of_nat (m div 10) @ [digit_char (m mod 10)]"
        by (subst string_of_nat.simps) simp
      then show ?thesis using n "1.prems" string_of_nat_nonempty[of "m div 10"] by simp
    qed
  next
    case False
    then have n: "string_of_nat n = string_of_nat (n div 10) @ [digit_char (n mod 10)]"
      by (subst string_of_nat.simps) simp
    show ?thesis
    proof (cases "m < 10")
      case True
      then have "string_of_nat m = [digit_char m]" by (subst string_of_nat.simps) simp
      then show ?thesis using n "1.prems" string_of_nat_nonempty[of "n div 10"] by simp
    next
      case m: False
      then have "string_of_nat m = string_of_nat (m div 10) @ [digit_char (m mod 10)]"
        by (subst string_of_nat.simps) simp
      then have "string_of_nat (n div 10) = string_of_nat (m div 10)"
        and "digit_char (n mod 10) = digit_char (m mod 10)"
        using n "1.prems" by simp_all
      then have "n div 10 = m div 10" and "n mod 10 = m mod 10"
        using "1.IH"[OF False] digit_char_inj[of "n mod 10" "m mod 10"] by simp_all
      then show ?thesis by (metis div_mult_mod_eq)
    qed
  qed
qed

lemma string_of_nat_no_separator: "CHR ''_'' \<notin> set (string_of_nat n)"
proof
  assume "CHR ''_'' \<in> set (string_of_nat n)"
  from string_of_nat_digits[OF this] obtain d where d: "d < 10" and c: "CHR ''_'' = digit_char d"
    by (elim exE conjE)
  show False using digit_char_not_separator[OF d] c by simp
qed

lemma string_of_int_no_separator: "CHR ''_'' \<notin> set (string_of_int i)"
  using string_of_nat_no_separator by (simp add: string_of_int_def)

lemma string_of_nat_no_minus: "CHR ''-'' # cs \<noteq> string_of_nat n"
proof
  assume "CHR ''-'' # cs = string_of_nat n"
  then have "set (CHR ''-'' # cs) = set (string_of_nat n)" by (rule arg_cong)
  then have "CHR ''-'' \<in> set (string_of_nat n)" by auto
  from string_of_nat_digits[OF this] obtain d where d: "d < 10" and c: "CHR ''-'' = digit_char d"
    by (elim exE conjE)
  show False using digit_char_not_separator[OF d] c by simp
qed

lemma string_of_int_inj: "string_of_int i = string_of_int j \<Longrightarrow> i = j"
proof -
  assume eq: "string_of_int i = string_of_int j"
  show ?thesis
  proof (cases "i < 0")
    case True
    show ?thesis
    proof (cases "j < 0")
      case j: True
      have "string_of_nat (nat (- i)) = string_of_nat (nat (- j))"
        using eq True j by (simp add: string_of_int_def)
      then have "nat (- i) = nat (- j)" by (rule string_of_nat_inj)
      then show ?thesis using True j by simp
    next
      case False
      have "CHR ''-'' # string_of_nat (nat (- i)) = string_of_nat (nat j)"
        using eq True False by (simp add: string_of_int_def)
      then show ?thesis using string_of_nat_no_minus[of "string_of_nat (nat (- i))" "nat j"] by simp
    qed
  next
    case False
    show ?thesis
    proof (cases "j < 0")
      case True
      have "string_of_nat (nat i) = CHR ''-'' # string_of_nat (nat (- j))"
        using eq True False by (simp add: string_of_int_def)
      then show ?thesis using string_of_nat_no_minus[of "string_of_nat (nat (- j))" "nat i"] by simp
    next
      case j: False
      have "string_of_nat (nat i) = string_of_nat (nat j)"
        using eq False j by (simp add: string_of_int_def)
      then have "nat i = nat j" by (rule string_of_nat_inj)
      then show ?thesis using False j by simp
    qed
  qed
qed

lemma split_at_separator:
  assumes "a @ c # b = a' @ c # b'" and "c \<notin> set a" and "c \<notin> set a'"
  shows "a = a' \<and> b = b'"
proof -
  have "takeWhile (\<lambda>x. x \<noteq> c) (a @ c # b) = a" "takeWhile (\<lambda>x. x \<noteq> c) (a' @ c # b') = a'"
    using assms(2,3) by (auto simp: takeWhile_tail)
  then have "a = a'" using assms(1) by simp
  then show ?thesis using assms(1) by simp
qed

lemma get_location_key_inj:
  "get_location_key x y = get_location_key x' y' \<longleftrightarrow> x = x' \<and> y = y'"
proof
  assume "get_location_key x y = get_location_key x' y'"
  then have "string_of_int x @ CHR ''_'' # string_of_int y = string_of_int x' @ CHR ''_'' # string_of_int y'"
    by (simp add: get_location_key_def)
  then have "string_of_int x = string_of_int x' \<and> string_of_int y = string_of_int y'"
    by (rule split_at_separator) (rule string_of_int_no_separator)+
  then show "x = x' \<and> y = y'" using string_of_int_inj by blast
qed simp

subsection \<open>States that differ in activation flags only\<close>

lemma flags_only_refl: "flags_only s s"
  unfolding flags_only_def by (rule exI[of _ "\<lambda>r. active (heap s r)"]) simp

lemma flags_only_trans: "flags_only s s1 \<Longrightarrow> flags_only s1 s2 \<Longrightarrow> flags_only s s2"
  unfolding flags_only_def by (elim exE, rule_tac x = ga in exI) simp

lemma flags_onlyI:
  assumes "\<And>r. \<exists>a. h' r = (heap s r)\<lparr>active := a\<rparr>"
  shows "flags_only s (s\<lparr>heap := h'\<rparr>)"
proof -
  have "h' = (\<lambda>r. (heap s r)\<lparr>active := active (h' r)\<rparr>)"
  proof
    fix r
    obtain a where "h' r = (heap s r)\<lparr>active := a\<rparr>" using assms by blast
    then show "h' r = (heap s r)\<lparr>active := active (h' r)\<rparr>" by simp
  qed
  then show ?thesis unfolding flags_only_def by (metis)
qed

lemma flags_only_fields:
  assumes "flags_only s s'"
  shows "map_events s' = map_events s" "calls s' = calls s"
    "trying_to_push s' = trying_to_push s" "push_timer s' = push_timer s"
    "trying_to_push_direction s' = trying_to_push_direction s"
    "actual_direction s' = actual_direction s" "casting_psynergy s' = casting_psynergy s"
    "jumping s' = jumping s" "pushing s' = pushing s" "actual_action s' = actual_action s"
    "hero_x s' = hero_x s" "hero_y s' = hero_y s"
    "x_te (heap s' r) = x_te (heap s r)" "y_te (heap s' r) = y_te (heap s r)"
    "location_key (heap s' r) = location_key (heap s r)" "id_te (heap s' r) = id_te (heap s r)"
    "type_te (heap s' r) = type_te (heap s r)" "dynamic (heap s' r) = dynamic (heap s r)"
    "activation_collision_layers (heap s' r) = activation_collision_layers (heap s r)"
    "activation_directions (heap s' r) = activation_directions (heap s r)"
  using assms unfolding flags_only_def by auto

lemma flags_only_heap: "flags_only s s' \<Longrightarrow> \<exists>a. heap s' r = (heap s r)\<lparr>active := a\<rparr>"
  unfolding flags_only_def by auto

lemma deactivate_bucket_flags:
  "\<exists>a. deactivate_bucket U lay d rs h r = (h r)\<lparr>active := a\<rparr>"
proof (induction rs arbitrary: h)
  case Nil
  show ?case by (simp, rule exI[of _ "active (h r)"], simp)
next
  case (Cons q rs)
  define h1 where "h1 = (if type_te (h q) = JUMP
        then (if lay \<in> set (activation_collision_layers (h q)) \<and> dynamic (h q) = False
              then h(q := deactivate_at (h q) (get_opposite_direcion U d))
              else h)
        else h)"
  obtain a where a: "deactivate_bucket U lay d rs h1 r = (h1 r)\<lparr>active := a\<rparr>"
    using Cons.IH[of h1] by blast
  have "\<exists>b. h1 r = (h r)\<lparr>active := b\<rparr>"
    unfolding h1_def by (auto simp: deactivate_at_def intro: exI[of _ "active (h r)"])
  then obtain b where b: "h1 r = (h r)\<lparr>active := b\<rparr>" by blast
  have "deactivate_bucket U lay d (q # rs) h r = deactivate_bucket U lay d rs h1 r"
    unfolding h1_def by simp
  also have "\<dots> = (h r)\<lparr>active := a\<rparr>" using a b by simp
  finally show ?case by blast
qed

lemma deactivate_old_surroundings_flags:
  "flags_only s (deactivate_old_surroundings U lay ss s)"
proof (induction ss arbitrary: s)
  case Nil
  show ?case by (simp add: flags_only_refl)
next
  case (Cons sr ss)
  let ?s1 = "(case map_events s (get_location_key (x_sur sr) (y_sur sr)) of
          None \<Rightarrow> s
        | Some b \<Rightarrow> s\<lparr>heap := deactivate_bucket U lay (direction sr) b (heap s)\<rparr>)"
  have "flags_only s ?s1"
    by (auto split: option.split intro: flags_only_refl flags_onlyI deactivate_bucket_flags)
  then show ?case using Cons.IH[of ?s1] by (auto intro: flags_only_trans)
qed

subsection \<open>Removal from and insertion into the registry\<close>

lemma in_bucket_same_registry: "map_events s' = map_events s \<Longrightarrow> in_bucket s' k r = in_bucket s k r"
  by (simp add: in_bucket_def)

lemma remove_event_frame:
  "remove_event ev s = Inr s1 \<Longrightarrow> \<exists>m c. s1 = s\<lparr>map_events := m, calls := c\<rparr>"
  by (auto simp: remove_event_def Let_def split: option.splits if_splits)

lemma remove_event_bucket:
  "remove_event ev s = Inr s1 \<Longrightarrow>
   in_bucket s1 k r =
     (in_bucket s k r \<and> (k = location_key (heap s ev) \<longrightarrow> id_te (heap s r) \<noteq> id_te (heap s ev)))"
  by (auto simp: remove_event_def in_bucket_def Let_def filter_empty_conv split: option.splits if_splits)

lemma remove_event_nonempty:
  "remove_event ev s = Inr s1 \<Longrightarrow> \<forall>k. map_events s k \<noteq> Some [] \<Longrightarrow> map_events s1 k \<noteq> Some []"
  by (auto simp: remove_event_def Let_def split: option.splits if_splits)

lemma insert_event_frame: "\<exists>m c. insert_event k ev s = s\<lparr>map_events := m, calls := c\<rparr>"
  by (auto simp: insert_event_def split: option.splits)

lemma insert_event_bucket:
  "in_bucket (insert_event k ev s) k' r = (in_bucket s k' r \<or> (k' = k \<and> r = ev))"
  by (auto simp: insert_event_def in_bucket_def split: option.splits)

lemma insert_event_nonempty:
  "\<forall>k. map_events s k \<noteq> Some [] \<Longrightarrow> map_events (insert_event k ev s) k' \<noteq> Some []"
  by (auto simp: insert_event_def split: option.splits)

subsection \<open>One iteration of the relocation loop\<close>

lemma move_event_before_activation:
  assumes "move_event U io dx dy ev s = Inr s4" and "activation_only U"
  shows "\<exists>s3 m c. flags_only s3 s4 \<and>
     s3 = s\<lparr>heap := (heap s)(ev := (heap s ev)
                  \<lparr>x_te := x_te (heap s ev) + dx, y_te := y_te (heap s ev) + dy,
                   location_key := get_location_key (x_te (heap s ev) + dx) (y_te (heap s ev) + dy)\<rparr>),
                map_events := m, calls := c\<rparr> \<and>
     (\<forall>k r. in_bucket s3 k r =
           ((in_bucket s k r \<and>
             (k = location_key (heap s ev) \<longrightarrow> id_te (heap s r) \<noteq> id_te (heap s ev)))
            \<or> (k = get_location_key (x_te (heap s ev) + dx) (y_te (heap s ev) + dy) \<and> r = ev))) \<and>
     ((\<forall>k. map_events s k \<noteq> Some []) \<longrightarrow> (\<forall>k. m k \<noteq> Some []))"
proof -
  define nk where "nk = get_location_key (x_te (heap s ev) + dx) (y_te (heap s ev) + dy)"
  obtain s1 where r: "remove_event ev s = Inr s1"
    using assms(1) by (auto simp: move_event_def split: sum.splits)
  obtain m1 c1 where s1: "s1 = s\<lparr>map_events := m1, calls := c1\<rparr>"
    using remove_event_frame[OF r] by blast
  define s2 where "s2 = s1\<lparr>heap := (heap s)(ev := (heap s ev)
      \<lparr>x_te := x_te (heap s ev) + dx, y_te := y_te (heap s ev) + dy, location_key := nk\<rparr>)\<rparr>"
  define s3 where "s3 = insert_event nk ev s2"
  have s4: "s4 = active_jump_surroundings U s3
      (get_surroundings U (x_te (heap s ev) + dx) (y_te (heap s ev) + dy) False 2)
      (jump_collide_layer_shift io + base_collider_layer io)"
    using assms(1) r by (simp add: move_event_def Let_def s3_def s2_def nk_def s1)
  have f: "flags_only s3 s4"
    using assms(2) unfolding activation_only_def s4 by simp
  obtain m c where s3: "s3 = s2\<lparr>map_events := m, calls := c\<rparr>"
    using insert_event_frame[of nk ev s2] unfolding s3_def by blast
  have shape: "s3 = s\<lparr>heap := (heap s)(ev := (heap s ev)
      \<lparr>x_te := x_te (heap s ev) + dx, y_te := y_te (heap s ev) + dy, location_key := nk\<rparr>),
      map_events := m, calls := c\<rparr>"
    by (simp add: s3 s2_def s1)
  have bucket: "in_bucket s3 k q =
      ((in_bucket s k q \<and>
        (k = location_key (heap s ev) \<longrightarrow> id_te (heap s q) \<noteq> id_te (heap s ev)))
       \<or> (k = nk \<and> q = ev))" for k q
  proof -
    have "in_bucket s3 k q = (in_bucket s2 k q \<or> (k = nk \<and> q = ev))"
      unfolding s3_def by (rule insert_event_bucket)
    moreover have "in_bucket s2 k q = in_bucket s1 k q"
      by (rule in_bucket_same_registry) (simp add: s2_def)
    ultimately show ?thesis using remove_event_bucket[OF r, of k q] by simp
  qed
  have nonempty: "\<forall>k. m k \<noteq> Some []" if "\<forall>k. map_events s k \<noteq> Some []"
  proof
    fix k
    have "\<forall>k. map_events s2 k \<noteq> Some []"
      using remove_event_nonempty[OF r that] by (simp add: s2_def)
    then have "map_events s3 k \<noteq> Some []"
      unfolding s3_def by (rule insert_event_nonempty)
    then show "m k \<noteq> Some []" by (simp add: s3)
  qed
  show ?thesis
    using f shape[unfolded nk_def] bucket[unfolded nk_def] nonempty by blast
qed

lemma move_event_heap:
  assumes "move_event U io dx dy ev s = Inr s4" and "activation_only U"
  shows "\<exists>a. heap s4 r =
     (if r = ev
      then (heap s ev)\<lparr>x_te := x_te (heap s ev) + dx, y_te := y_te (heap s ev) + dy,
             location_key := get_location_key (x_te (heap s ev) + dx) (y_te (heap s ev) + dy)\<rparr>
      else heap s r)\<lparr>active := a\<rparr>"
proof -
  obtain s3 m c where f: "flags_only s3 s4"
    and s3: "s3 = s\<lparr>heap := (heap s)(ev := (heap s ev)
                  \<lparr>x_te := x_te (heap s ev) + dx, y_te := y_te (heap s ev) + dy,
                   location_key := get_location_key (x_te (heap s ev) + dx) (y_te (heap s ev) + dy)\<rparr>),
                map_events := m, calls := c\<rparr>"
    using move_event_before_activation[OF assms] by blast
  show ?thesis
    using flags_only_heap[OF f, of r] by (cases "r = ev") (simp_all add: s3)
qed

lemma move_event_bucket:
  assumes "move_event U io dx dy ev s = Inr s4" and "activation_only U"
  shows "in_bucket s4 k r =
     ((in_bucket s k r \<and> (k = location_key (heap s ev) \<longrightarrow> id_te (heap s r) \<noteq> id_te (heap s ev)))
      \<or> (k = get_location_key (x_te (heap s ev) + dx) (y_te (heap s ev) + dy) \<and> r = ev))"
proof -
  obtain s3 where f: "flags_only s3 s4"
    and b: "\<forall>k r. in_bucket s3 k r =
           ((in_bucket s k r \<and>
             (k = location_key (heap s ev) \<longrightarrow> id_te (heap s r) \<noteq> id_te (heap s ev)))
            \<or> (k = get_location_key (x_te (heap s ev) + dx) (y_te (heap s ev) + dy) \<and> r = ev))"
    using move_event_before_activation[OF assms] by blast
  have "in_bucket s4 k r = in_bucket s3 k r"
    using flags_only_fields(1)[OF f] by (rule in_bucket_same_registry)
  then show ?thesis using b by simp
qed

lemma move_event_nonempty:
  assumes "move_event U io dx dy ev s = Inr s4" and "activation_only U"
    and "\<forall>k. map_events s k \<noteq> Some []"
  shows "map_events s4 k \<noteq> Some []"
proof -
  obtain s3 m c where f: "flags_only s3 s4"
    and s3: "s3 = s\<lparr>heap := (heap s)(ev := (heap s ev)
                  \<lparr>x_te := x_te (heap s ev) + dx, y_te := y_te (heap s ev) + dy,
                   location_key := get_location_key (x_te (heap s ev) + dx) (y_te (heap s ev) + dy)\<rparr>),
                map_events := m, calls := c\<rparr>"
    and n: "(\<forall>k. map_events s k \<noteq> Some []) \<longrightarrow> (\<forall>k. m k \<noteq> Some [])"
    using move_event_before_activation[OF assms(1,2)] by blast
  show ?thesis using flags_only_fields(1)[OF f] n assms(3) by (simp add: s3)
qed

lemma relocate_event_cases:
  assumes "relocate_event U io dx dy ev s = Inr s'"
  shows "\<exists>s4. move_event U io dx dy ev s = Inr s4 \<and>
     s' = deactivate_old_surroundings U (jump_collide_layer_shift io + base_collider_layer io)
               (get_surroundings U (x_te (heap s ev)) (y_te (heap s ev)) False 2) s4 \<and>
     flags_only s4 s'"
  using assms deactivate_old_surroundings_flags
  by (auto simp: relocate_event_def Let_def split: sum.splits)

lemma relocate_event_heap:
  assumes "relocate_event U io dx dy ev s = Inr s'" and "activation_only U"
  shows "\<exists>a. heap s' r =
     (if r = ev
      then (heap s ev)\<lparr>x_te := x_te (heap s ev) + dx, y_te := y_te (heap s ev) + dy,
             location_key := get_location_key (x_te (heap s ev) + dx) (y_te (heap s ev) + dy)\<rparr>
      else heap s r)\<lparr>active := a\<rparr>"
proof -
  obtain s4 where m: "move_event U io dx dy ev s = Inr s4" and f: "flags_only s4 s'"
    using relocate_event_cases[OF assms(1)] by blast
  obtain a where a: "heap s4 r =
     (if r = ev
      then (heap s ev)\<lparr>x_te := x_te (heap s ev) + dx, y_te := y_te (heap s ev) + dy,
             location_key := get_location_key (x_te (heap s ev) + dx) (y_te (heap s ev) + dy)\<rparr>
      else heap s r)\<lparr>active := a\<rparr>"
    using move_event_heap[OF m assms(2), of r] by blast
  obtain b where "heap s' r = (heap s4 r)\<lparr>active := b\<rparr>"
    using flags_only_heap[OF f, of r] by blast
  then have "heap s' r =
     (if r = ev
      then (heap s ev)\<lparr>x_te := x_te (heap s ev) + dx, y_te := y_te (heap s ev) + dy,
             location_key := get_location_key (x_te (heap s ev) + dx) (y_te (heap s ev) + dy)\<rparr>
      else heap s r)\<lparr>active := b\<rparr>"
    by (simp add: a)
  then show ?thesis by blast
qed

lemma relocate_event_bucket:
  assumes "relocate_event U io dx dy ev s = Inr s'" and "activation_only U"
  shows "in_bucket s' k r =
     ((in_bucket s k r \<and> (k = location_key (heap s ev) \<longrightarrow> id_te (heap s r) \<noteq> id_te (heap s ev)))
      \<or> (k = get_location_key (x_te (heap s ev) + dx) (y_te (heap s ev) + dy) \<and> r = ev))"
proof -
  obtain s4 where m: "move_event U io dx dy ev s = Inr s4" and f: "flags_only s4 s'"
    using relocate_event_cases[OF assms(1)] by blast
  have "in_bucket s' k r = in_bucket s4 k r"
    using flags_only_fields(1)[OF f] by (rule in_bucket_same_registry)
  then show ?thesis using move_event_bucket[OF m assms(2)] by simp
qed

lemma relocate_event_nonempty:
  assumes "relocate_event U io dx dy ev s = Inr s'" and "activation_only U"
    and "\<forall>k. map_events s k \<noteq> Some []"
  shows "map_events s' k \<noteq> Some []"
proof -
  obtain s4 where m: "move_event U io dx dy ev s = Inr s4" and f: "flags_only s4 s'"
    using relocate_event_cases[OF assms(1)] by blast
  show ?thesis using move_event_nonempty[OF m assms(2,3)] flags_only_fields(1)[OF f] by simp
qed

lemma registry_inv_iff:
  "registry_inv s \<longleftrightarrow>
   ((\<forall>k. map_events s k \<noteq> Some []) \<and> (\<forall>k r. in_bucket s k r \<longrightarrow> location_key (heap s r) = k))"
  by (auto simp: registry_inv_def in_bucket_def split: option.splits)

lemma relocate_event_registry_inv:
  assumes "relocate_event U io dx dy ev s = Inr s'" and "activation_only U" and "registry_inv s"
  shows "registry_inv s'"
proof -
  have ne: "\<forall>k. map_events s k \<noteq> Some []"
    and own: "\<And>k r. in_bucket s k r \<Longrightarrow> location_key (heap s r) = k"
    using assms(3) by (auto simp: registry_inv_iff)
  have "location_key (heap s' r) = k" if "in_bucket s' k r" for k r
  proof -
    obtain a where a: "heap s' r =
       (if r = ev
        then (heap s ev)\<lparr>x_te := x_te (heap s ev) + dx, y_te := y_te (heap s ev) + dy,
               location_key := get_location_key (x_te (heap s ev) + dx) (y_te (heap s ev) + dy)\<rparr>
        else heap s r)\<lparr>active := a\<rparr>"
      using relocate_event_heap[OF assms(1,2), of r] by blast
    have b: "(in_bucket s k r \<and> (k = location_key (heap s ev) \<longrightarrow> id_te (heap s r) \<noteq> id_te (heap s ev)))
      \<or> (k = get_location_key (x_te (heap s ev) + dx) (y_te (heap s ev) + dy) \<and> r = ev)"
      using that relocate_event_bucket[OF assms(1,2), of k r] by simp
    show ?thesis
    proof (cases "r = ev")
      case True
      have "k = get_location_key (x_te (heap s ev) + dx) (y_te (heap s ev) + dy)"
        using b own[of k ev] True by blast
      then show ?thesis using a True by simp
    next
      case False
      then have "in_bucket s k r" using b by blast
      then have "location_key (heap s r) = k" by (rule own)
      then show ?thesis using a False by simp
    qed
  qed
  then show ?thesis
    using relocate_event_nonempty[OF assms(1,2) ne] by (auto simp: registry_inv_iff)
qed

subsection \<open>The loop over the object's events\<close>

lemma relocate_events_registry_inv:
  "relocate_events U io dx dy evs s = Inr s' \<Longrightarrow> activation_only U \<Longrightarrow> registry_inv s \<Longrightarrow>
   registry_inv s'"
proof (induction evs arbitrary: s)
  case Nil
  then show ?case by simp
next
  case (Cons ev evs)
  from Cons.prems(1) obtain s1 where s1: "relocate_event U io dx dy ev s = Inr s1"
    and rest: "relocate_events U io dx dy evs s1 = Inr s'"
    by (auto split: sum.splits)
  show ?case
    using Cons.IH[OF rest Cons.prems(2)] relocate_event_registry_inv[OF s1 Cons.prems(2,3)] by simp
qed

text \<open>
  Events whose identifier differs from those of all relocated events keep their
  coordinates, key, identifier and bucket memberships.
\<close>

lemma relocate_events_others:
  "relocate_events U io dx dy evs s = Inr s' \<Longrightarrow> activation_only U \<Longrightarrow>
   \<forall>q \<in> set evs. id_te (heap s q) \<noteq> id_te (heap s r) \<Longrightarrow>
   (\<exists>a. heap s' r = (heap s r)\<lparr>active := a\<rparr>) \<and> (\<forall>k. in_bucket s' k r = in_bucket s k r)"
proof (induction evs arbitrary: s)
  case Nil
  then show ?case by (auto intro: exI[of _ "active (heap s r)"])
next
  case (Cons ev evs)
  from Cons.prems(1) obtain s1 where s1: "relocate_event U io dx dy ev s = Inr s1"
    and rest: "relocate_events U io dx dy evs s1 = Inr s'"
    by (auto split: sum.splits)
  have ne: "r \<noteq> ev" using Cons.prems(3) by auto
  have h1: "\<exists>a. heap s1 q = (heap s q)\<lparr>active := a\<rparr>" if "q \<noteq> ev" for q
    using relocate_event_heap[OF s1 Cons.prems(2), of q] that by simp
  have ids: "id_te (heap s1 q) = id_te (heap s q)" for q
    using relocate_event_heap[OF s1 Cons.prems(2), of q] by (cases "q = ev") auto
  have b1: "in_bucket s1 k r = in_bucket s k r" for k
    using relocate_event_bucket[OF s1 Cons.prems(2), of k r] ne Cons.prems(3) by auto
  have "\<forall>q \<in> set evs. id_te (heap s1 q) \<noteq> id_te (heap s1 r)"
    using Cons.prems(3) ids by simp
  from Cons.IH[OF rest Cons.prems(2) this]
  obtain a where a: "heap s' r = (heap s1 r)\<lparr>active := a\<rparr>"
    and b: "\<forall>k. in_bucket s' k r = in_bucket s1 k r" by blast
  obtain a1 where "heap s1 r = (heap s r)\<lparr>active := a1\<rparr>" using h1[OF ne] by blast
  with a have "heap s' r = (heap s r)\<lparr>active := a\<rparr>" by simp
  then show ?case using b b1 by blast
qed

text \<open>The relocated events, when they are distinct objects with distinct identifiers.\<close>

lemma relocate_events_moved:
  "relocate_events U io dx dy evs s = Inr s' \<Longrightarrow> activation_only U \<Longrightarrow>
   distinct evs \<Longrightarrow> inj_on (\<lambda>q. id_te (heap s q)) (set evs) \<Longrightarrow> r \<in> set evs \<Longrightarrow>
   (\<exists>a. heap s' r = (heap s r)\<lparr>x_te := x_te (heap s r) + dx, y_te := y_te (heap s r) + dy,
        location_key := get_location_key (x_te (heap s r) + dx) (y_te (heap s r) + dy),
        active := a\<rparr>) \<and>
   in_bucket s' (get_location_key (x_te (heap s r) + dx) (y_te (heap s r) + dy)) r \<and>
   (get_location_key (x_te (heap s r) + dx) (y_te (heap s r) + dy) \<noteq> location_key (heap s r)
      \<longrightarrow> \<not> in_bucket s' (location_key (heap s r)) r)"
proof (induction evs arbitrary: s)
  case Nil
  then show ?case by simp
next
  case (Cons ev evs)
  from Cons.prems(1) obtain s1 where s1: "relocate_event U io dx dy ev s = Inr s1"
    and rest: "relocate_events U io dx dy evs s1 = Inr s'"
    by (auto split: sum.splits)
  have ids: "id_te (heap s1 q) = id_te (heap s q)" for q
    using relocate_event_heap[OF s1 Cons.prems(2), of q] by (cases "q = ev") auto
  have inj1: "inj_on (\<lambda>q. id_te (heap s1 q)) (set evs)"
    using Cons.prems(4) by (simp add: ids inj_on_def)
  have d: "distinct evs" "ev \<notin> set evs" using Cons.prems(3) by auto
  show ?case
  proof (cases "r = ev")
    case True
    have "\<forall>q \<in> set evs. id_te (heap s1 q) \<noteq> id_te (heap s1 r)"
      using Cons.prems(4) d True by (auto simp: ids inj_on_def)
    from relocate_events_others[OF rest Cons.prems(2) this]
    obtain a where a: "heap s' r = (heap s1 r)\<lparr>active := a\<rparr>"
      and b: "\<forall>k. in_bucket s' k r = in_bucket s1 k r" by blast
    obtain a1 where a1: "heap s1 r = (heap s r)\<lparr>x_te := x_te (heap s r) + dx, y_te := y_te (heap s r) + dy,
        location_key := get_location_key (x_te (heap s r) + dx) (y_te (heap s r) + dy),
        active := a1\<rparr>"
      using relocate_event_heap[OF s1 Cons.prems(2), of r] True by auto
    have h: "heap s' r = (heap s r)\<lparr>x_te := x_te (heap s r) + dx, y_te := y_te (heap s r) + dy,
        location_key := get_location_key (x_te (heap s r) + dx) (y_te (heap s r) + dy),
        active := a\<rparr>"
      using a a1 by simp
    have "in_bucket s1 (get_location_key (x_te (heap s r) + dx) (y_te (heap s r) + dy)) r"
      using relocate_event_bucket[OF s1 Cons.prems(2), of _ r] True by simp
    moreover have "\<not> in_bucket s1 (location_key (heap s r)) r"
      if "get_location_key (x_te (heap s r) + dx) (y_te (heap s r) + dy) \<noteq> location_key (heap s r)"
      using relocate_event_bucket[OF s1 Cons.prems(2), of "location_key (heap s r)" r] True that by auto
    ultimately show ?thesis using h b by blast
  next
    case False
    then have r: "r \<in> set evs" using Cons.prems(5) by simp
    obtain a1 where a1: "heap s1 r = (heap s r)\<lparr>active := a1\<rparr>"
      using relocate_event_heap[OF s1 Cons.prems(2), of r] False by auto
    from Cons.IH[OF rest Cons.prems(2) d(1) inj1 r] show ?thesis
      by (simp add: a1)
  qed
qed

subsection \<open>The entry points\<close>

lemma fire_push_movement_rejected:
  "\<not> target_only \<Longrightarrow> expected_position s io \<noteq> Some (trying_to_push_direction s) \<Longrightarrow>
   fire_push_movement U s io push_end before_move target_only = Inr (s, io, None)"
  by (simp add: fire_push_movement_def)

lemma fire_push_movement_fired:
  assumes "fire_push_movement U s io push_end before_move target_only = Inr (s', io', Some j)"
  shows "\<exists>s3 c. relocate_events U io (fst (event_shift (trying_to_push_direction s)))
             (snd (event_shift (trying_to_push_direction s))) (object_events io)
             ((if \<not> target_only then s\<lparr>pushing := True, actual_action := ''push''\<rparr> else s)
                \<lparr>calls := calls s @ [Physics_pause]\<rparr>) = Inr s3 \<and>
          s' = s3\<lparr>calls := c\<rparr>"
  using assms
  by (auto simp: fire_push_movement_def Let_def split: if_splits sum.splits)

lemma fire_push_movement_registry_inv:
  assumes "fire_push_movement U s io push_end before_move target_only = Inr (s', io', p)"
    and "activation_only U" and "registry_inv s"
  shows "registry_inv s'"
proof (cases p)
  case None
  then have "s' = s" using assms(1)
    by (auto simp: fire_push_movement_def Let_def split: if_splits sum.splits)
  then show ?thesis using assms(3) by simp
next
  case (Some j)
  then obtain s3 c where r: "relocate_events U io (fst (event_shift (trying_to_push_direction s)))
             (snd (event_shift (trying_to_push_direction s))) (object_events io)
             ((if \<not> target_only then s\<lparr>pushing := True, actual_action := ''push''\<rparr> else s)
                \<lparr>calls := calls s @ [Physics_pause]\<rparr>) = Inr s3" and s': "s' = s3\<lparr>calls := c\<rparr>"
    using fire_push_movement_fired assms(1) by blast
  have "registry_inv ((if \<not> target_only then s\<lparr>pushing := True, actual_action := ''push''\<rparr> else s)
                \<lparr>calls := calls s @ [Physics_pause]\<rparr>)"
    using assms(3) by (simp add: registry_inv_def)
  then have "registry_inv s3" by (rule relocate_events_registry_inv[OF r assms(2)])
  then show ?thesis by (simp add: s' registry_inv_def)
qed

lemma normal_push_registry_inv:
  assumes "normal_push U s io = Inr (s', io', p)" and "activation_only U" and "registry_inv s"
  shows "registry_inv s'"
proof (cases "trying_to_push s \<and> trying_to_push_direction s \<in> set [Up, Down, Left, Right]
         \<and> trying_to_push_direction s = actual_direction s
         \<and> \<not> casting_psynergy s \<and> \<not> jumping s")
  case True
  then obtain s1 where f: "fire_push_movement U s io False False False = Inr (s1, io', p)"
    and s': "s' = s1\<lparr>trying_to_push := False, push_timer := None\<rparr>"
    using assms(1) by (auto simp: normal_push_def split: sum.splits)
  have "registry_inv s1" by (rule fire_push_movement_registry_inv[OF f assms(2,3)])
  then show ?thesis by (simp add: s' registry_inv_def)
next
  case False
  then have "s' = s\<lparr>trying_to_push := False, push_timer := None\<rparr>"
    using assms(1) by (auto simp: normal_push_def split: if_splits)
  then show ?thesis using assms(3) by (simp add: registry_inv_def)
qed

lemma pushes_registry_inv:
  assumes "pushes E U s s'" and "activation_only U" and "registry_inv s"
  shows "registry_inv s'"
  using assms(1)
proof (induction rule: pushes.induct)
  case pushes_start
  show ?case by (rule assms(3))
next
  case (pushes_other s1 s2)
  then show ?case by (simp add: registry_inv_def)
next
  case (pushes_normal s1 io s2 io' p)
  then show ?case using normal_push_registry_inv assms(2) by blast
next
  case (pushes_target_only s1 io before_move push_end s2 io' p)
  then show ?case using fire_push_movement_registry_inv assms(2)
    unfolding target_only_push_def by blast
qed

text \<open>
  The events of the map stay registered, and all identifiers stay as they are, when the
  relocated events are among them and the identifiers of the map's events are distinct.
\<close>

lemma relocate_event_ids:
  "relocate_event U io dx dy ev s = Inr s' \<Longrightarrow> activation_only U \<Longrightarrow>
   id_te (heap s' q) = id_te (heap s q)"
  using relocate_event_heap[of U io dx dy ev s s' q] by (cases "q = ev") auto

lemma relocate_event_registered:
  assumes "relocate_event U io dx dy ev s = Inr s'" and "activation_only U"
    and "ev \<in> E" and "inj_on (\<lambda>q. id_te (heap s q)) E" and "registered E s"
  shows "registered E s'"
  unfolding registered_def
proof
  fix r assume r: "r \<in> E"
  obtain a where a: "heap s' r =
     (if r = ev
      then (heap s ev)\<lparr>x_te := x_te (heap s ev) + dx, y_te := y_te (heap s ev) + dy,
             location_key := get_location_key (x_te (heap s ev) + dx) (y_te (heap s ev) + dy)\<rparr>
      else heap s r)\<lparr>active := a\<rparr>"
    using relocate_event_heap[OF assms(1,2), of r] by blast
  show "in_bucket s' (location_key (heap s' r)) r"
  proof (cases "r = ev")
    case True
    then show ?thesis
      using a relocate_event_bucket[OF assms(1,2), of "location_key (heap s' r)" r] by simp
  next
    case False
    then have "id_te (heap s r) \<noteq> id_te (heap s ev)"
      using assms(3,4) r by (auto simp: inj_on_def)
    moreover have "in_bucket s (location_key (heap s r)) r"
      using assms(5) r by (simp add: registered_def)
    moreover have "location_key (heap s' r) = location_key (heap s r)"
      using a False by simp
    ultimately show ?thesis
      using relocate_event_bucket[OF assms(1,2), of "location_key (heap s r)" r] by simp
  qed
qed

lemma relocate_events_registered:
  "relocate_events U io dx dy evs s = Inr s' \<Longrightarrow> activation_only U \<Longrightarrow> set evs \<subseteq> E \<Longrightarrow>
   inj_on (\<lambda>q. id_te (heap s q)) E \<Longrightarrow> registered E s \<Longrightarrow>
   registered E s' \<and> (\<forall>q. id_te (heap s' q) = id_te (heap s q))"
proof (induction evs arbitrary: s)
  case Nil
  then show ?case by simp
next
  case (Cons ev evs)
  from Cons.prems(1) obtain s1 where s1: "relocate_event U io dx dy ev s = Inr s1"
    and rest: "relocate_events U io dx dy evs s1 = Inr s'"
    by (auto split: sum.splits)
  have ids: "id_te (heap s1 q) = id_te (heap s q)" for q
    by (rule relocate_event_ids[OF s1 Cons.prems(2)])
  have inj1: "inj_on (\<lambda>q. id_te (heap s1 q)) E"
    using Cons.prems(4) by (simp add: ids)
  have "ev \<in> E" and sub: "set evs \<subseteq> E" using Cons.prems(3) by auto
  then have reg1: "registered E s1"
    using relocate_event_registered[OF s1 Cons.prems(2) _ Cons.prems(4,5)] by blast
  show ?case
    using Cons.IH[OF rest Cons.prems(2) sub inj1 reg1] ids by simp
qed

lemma fire_push_movement_registered:
  assumes "fire_push_movement U s io push_end before_move target_only = Inr (s', io', p)"
    and "activation_only U" and "set (object_events io) \<subseteq> E"
    and "inj_on (\<lambda>q. id_te (heap s q)) E" and "registered E s"
  shows "registered E s' \<and> (\<forall>q. id_te (heap s' q) = id_te (heap s q))"
proof (cases p)
  case None
  then have "s' = s" using assms(1)
    by (auto simp: fire_push_movement_def Let_def split: if_splits sum.splits)
  then show ?thesis using assms(5) by simp
next
  case (Some j)
  define s0 where "s0 = (if \<not> target_only then s\<lparr>pushing := True, actual_action := ''push''\<rparr> else s)
                \<lparr>calls := calls s @ [Physics_pause]\<rparr>"
  obtain s3 c where r: "relocate_events U io (fst (event_shift (trying_to_push_direction s)))
             (snd (event_shift (trying_to_push_direction s))) (object_events io) s0 = Inr s3"
    and s': "s' = s3\<lparr>calls := c\<rparr>"
    using fire_push_movement_fired assms(1) Some unfolding s0_def by blast
  have h0: "heap s0 = heap s" by (simp add: s0_def)
  have "registered E s0" using assms(5) by (simp add: registered_def in_bucket_def s0_def)
  then have "registered E s3 \<and> (\<forall>q. id_te (heap s3 q) = id_te (heap s0 q))"
    using relocate_events_registered[OF r assms(2,3)] assms(4) by (simp add: h0)
  then show ?thesis by (simp add: s' h0 registered_def in_bucket_def)
qed

lemma normal_push_registered:
  assumes "normal_push U s io = Inr (s', io', p)"
    and "activation_only U" and "set (object_events io) \<subseteq> E"
    and "inj_on (\<lambda>q. id_te (heap s q)) E" and "registered E s"
  shows "registered E s' \<and> (\<forall>q. id_te (heap s' q) = id_te (heap s q))"
proof (cases "trying_to_push s \<and> trying_to_push_direction s \<in> set [Up, Down, Left, Right]
         \<and> trying_to_push_direction s = actual_direction s
         \<and> \<not> casting_psynergy s \<and> \<not> jumping s")
  case True
  then obtain s1 where f: "fire_push_movement U s io False False False = Inr (s1, io', p)"
    and s': "s' = s1\<lparr>trying_to_push := False, push_timer := None\<rparr>"
    using assms(1) by (auto simp: normal_push_def split: sum.splits)
  show ?thesis
    using fire_push_movement_registered[OF f assms(2,3,4,5)]
    by (simp add: s' registered_def in_bucket_def)
next
  case False
  then have "s' = s\<lparr>trying_to_push := False, push_timer := None\<rparr>"
    using assms(1) by (auto simp: normal_push_def split: if_splits)
  then show ?thesis using assms(5) by (simp add: registered_def in_bucket_def)
qed

lemma pushes_registered:
  assumes "pushes E U s s'" and "activation_only U"
    and "inj_on (\<lambda>q. id_te (heap s q)) E" and "registered E s"
  shows "registered E s' \<and> (\<forall>q. id_te (heap s' q) = id_te (heap s q))"
  using assms(1)
proof (induction rule: pushes.induct)
  case pushes_start
  show ?case using assms(4) by simp
next
  case (pushes_other s1 s2)
  then show ?case by (simp add: registered_def in_bucket_def)
next
  case (pushes_normal s1 io s2 io' p)
  then have "inj_on (\<lambda>q. id_te (heap s1 q)) E" using assms(3) by simp
  then show ?case
    using normal_push_registered[OF pushes_normal.hyps(3) assms(2) pushes_normal.hyps(2)]
      pushes_normal.IH by simp
next
  case (pushes_target_only s1 io before_move push_end s2 io' p)
  then have "inj_on (\<lambda>q. id_te (heap s1 q)) E" using assms(3) by simp
  then show ?case
    using fire_push_movement_registered[OF
        pushes_target_only.hyps(3)[unfolded target_only_push_def] assms(2)
        pushes_target_only.hyps(2)]
      pushes_target_only.IH by simp
qed

subsection \<open>The concrete scene\<close>

lemma activate_bucket_flags: "\<exists>a. activate_bucket lay rs h r = (h r)\<lparr>active := a\<rparr>"
proof (induction rs arbitrary: h)
  case Nil
  show ?case by (simp, rule exI[of _ "active (h r)"], simp)
next
  case (Cons q rs)
  define h1 where "h1 = (if type_te (h q) = JUMP \<and> lay \<in> set (activation_collision_layers (h q))
        then h(q := activate (h q)) else h)"
  obtain a where a: "activate_bucket lay rs h1 r = (h1 r)\<lparr>active := a\<rparr>"
    using Cons.IH[of h1] by blast
  have "\<exists>b. h1 r = (h r)\<lparr>active := b\<rparr>"
    unfolding h1_def by (auto simp: activate_def intro: exI[of _ "active (h r)"])
  then obtain b where b: "h1 r = (h r)\<lparr>active := b\<rparr>" by blast
  have "activate_bucket lay (q # rs) h r = activate_bucket lay rs h1 r"
    unfolding h1_def by simp
  also have "\<dots> = (h r)\<lparr>active := a\<rparr>" using a b by simp
  finally show ?case by blast
qed

lemma activate_surroundings_flags: "flags_only s (activate_surroundings s ss lay)"
proof (induction ss arbitrary: s)
  case Nil
  show ?case by (simp add: flags_only_refl)
next
  case (Cons sr ss)
  define s1 where "s1 = (case map_events s (get_location_key (x_sur sr) (y_sur sr)) of
          None \<Rightarrow> s
        | Some b \<Rightarrow> s\<lparr>heap := activate_bucket lay b (heap s)\<rparr>)"
  have "flags_only s s1"
    unfolding s1_def
    by (auto split: option.split intro: flags_only_refl flags_onlyI activate_bucket_flags)
  moreover have "flags_only s1 (activate_surroundings s1 ss lay)" by (rule Cons.IH)
  ultimately show ?case unfolding s1_def[symmetric] 
    by (simp add: s1_def[symmetric]) (rule flags_only_trans)
qed

lemma scene_utils_activation_only: "activation_only scene_utils"
  by (simp add: activation_only_def scene_utils_def activate_surroundings_flags)

lemmas scene_defs = scene_utils_def scene_data_def scene_object_def scene_heap_def scene_event_def
  surroundings_def get_location_key_def string_of_int_def string_of_nat.simps digit_char_def
  fire_push_movement_def normal_push_def expected_position_def quadrant_def positive_limit_def
  negative_limit_def event_shift_def relocate_event_def move_event_def remove_event_def
  insert_event_def Let_def activate_def deactivate_at_def array_set_def array_map_const_def
  array_fill_def

lemma scene_registry_inv: "registry_inv scene_data"
  by (auto simp: registry_inv_def scene_defs split: if_splits)

lemma scene_eval:
  "\<exists>s' io' j. fire_push_movement scene_utils scene_data scene_object False False False
     = Inr (s', io', Some j)"
  by (simp add: scene_defs)

subsection \<open>The pass over the old surroundings\<close>

lemma deactivate_at_slot:
  "array_get (active (deactivate_at e d)) (indexOf (activation_directions (deactivate_at e d)) d)
   = Some False"
  by (simp add: deactivate_at_def array_set_def array_get_def)

lemma deactivate_at_keeps_false:
  "array_get (active e) (indexOf (activation_directions e) d') = Some False \<Longrightarrow>
   array_get (active (deactivate_at e d)) (indexOf (activation_directions (deactivate_at e d)) d')
   = Some False"
  by (simp add: deactivate_at_def array_set_def array_get_def)

lemma deactivate_bucket_keeps_false:
  "array_get (active (h r)) (indexOf (activation_directions (h r)) d') = Some False \<Longrightarrow>
   array_get (active (deactivate_bucket U lay d rs h r))
     (indexOf (activation_directions (deactivate_bucket U lay d rs h r)) d') = Some False"
proof (induction rs arbitrary: h)
  case Nil
  then show ?case by simp
next
  case (Cons q rs)
  define h1 where "h1 = (if type_te (h q) = JUMP
        then (if lay \<in> set (activation_collision_layers (h q)) \<and> dynamic (h q) = False
              then h(q := deactivate_at (h q) (get_opposite_direcion U d))
              else h)
        else h)"
  have "array_get (active (h1 r)) (indexOf (activation_directions (h1 r)) d') = Some False"
    using Cons.prems unfolding h1_def by (auto simp: deactivate_at_keeps_false)
  then have "array_get (active (deactivate_bucket U lay d rs h1 r))
     (indexOf (activation_directions (deactivate_bucket U lay d rs h1 r)) d') = Some False"
    by (rule Cons.IH)
  moreover have "deactivate_bucket U lay d (q # rs) h = deactivate_bucket U lay d rs h1"
    unfolding h1_def by simp
  ultimately show ?case by simp
qed

lemma deactivate_bucket_slot:
  "r \<in> set rs \<Longrightarrow> type_te (h r) = JUMP \<Longrightarrow> lay \<in> set (activation_collision_layers (h r)) \<Longrightarrow>
   \<not> dynamic (h r) \<Longrightarrow>
   array_get (active (deactivate_bucket U lay d rs h r))
     (indexOf (activation_directions (deactivate_bucket U lay d rs h r)) (get_opposite_direcion U d))
   = Some False"
proof (induction rs arbitrary: h)
  case Nil
  then show ?case by simp
next
  case (Cons q rs)
  define h1 where "h1 = (if type_te (h q) = JUMP
        then (if lay \<in> set (activation_collision_layers (h q)) \<and> dynamic (h q) = False
              then h(q := deactivate_at (h q) (get_opposite_direcion U d))
              else h)
        else h)"
  have step: "deactivate_bucket U lay d (q # rs) h = deactivate_bucket U lay d rs h1"
    unfolding h1_def by simp
  have static: "type_te (h1 r) = JUMP" "lay \<in> set (activation_collision_layers (h1 r))"
    "\<not> dynamic (h1 r)"
    using Cons.prems(2,3,4) unfolding h1_def by (auto simp: deactivate_at_def)
  show ?case
  proof (cases "r = q")
    case True
    have "array_get (active (h1 r)) (indexOf (activation_directions (h1 r)) (get_opposite_direcion U d))
          = Some False"
      using Cons.prems(2,3,4) True unfolding h1_def by (simp add: deactivate_at_slot)
    then show ?thesis unfolding step by (rule deactivate_bucket_keeps_false)
  next
    case False
    then have "r \<in> set rs" using Cons.prems(1) by simp
    then show ?thesis unfolding step using static by (rule Cons.IH)
  qed
qed

lemma deactivate_bucket_untouched:
  "\<not> (type_te (h q) = JUMP \<and> lay \<in> set (activation_collision_layers (h q)) \<and> \<not> dynamic (h q)) \<Longrightarrow>
   deactivate_bucket U lay d rs h q = h q"
proof (induction rs arbitrary: h)
  case Nil
  then show ?case by simp
next
  case (Cons r rs)
  define h1 where "h1 = (if type_te (h r) = JUMP
        then (if lay \<in> set (activation_collision_layers (h r)) \<and> dynamic (h r) = False
              then h(r := deactivate_at (h r) (get_opposite_direcion U d))
              else h)
        else h)"
  have same: "h1 q = h q" using Cons.prems unfolding h1_def by auto
  then have "\<not> (type_te (h1 q) = JUMP \<and> lay \<in> set (activation_collision_layers (h1 q))
      \<and> \<not> dynamic (h1 q))"
    using Cons.prems by simp
  then have "deactivate_bucket U lay d rs h1 q = h1 q" by (rule Cons.IH)
  moreover have "deactivate_bucket U lay d (r # rs) h = deactivate_bucket U lay d rs h1"
    unfolding h1_def by simp
  ultimately show ?case using same by simp
qed

lemma deactivate_old_surroundings_keeps_false:
  "array_get (active (heap s r)) (indexOf (activation_directions (heap s r)) d') = Some False \<Longrightarrow>
   array_get (active (heap (deactivate_old_surroundings U lay ss s) r))
     (indexOf (activation_directions (heap (deactivate_old_surroundings U lay ss s) r)) d')
   = Some False"
proof (induction ss arbitrary: s)
  case Nil
  then show ?case by simp
next
  case (Cons sr ss)
  define s1 where "s1 = (case map_events s (get_location_key (x_sur sr) (y_sur sr)) of
          None \<Rightarrow> s
        | Some b \<Rightarrow> s\<lparr>heap := deactivate_bucket U lay (direction sr) b (heap s)\<rparr>)"
  have "array_get (active (heap s1 r)) (indexOf (activation_directions (heap s1 r)) d') = Some False"
    using Cons.prems unfolding s1_def
    by (auto split: option.split intro: deactivate_bucket_keeps_false)
  then have "array_get (active (heap (deactivate_old_surroundings U lay ss s1) r))
     (indexOf (activation_directions (heap (deactivate_old_surroundings U lay ss s1) r)) d')
     = Some False"
    by (rule Cons.IH)
  moreover have "deactivate_old_surroundings U lay (sr # ss) s = deactivate_old_surroundings U lay ss s1"
    unfolding s1_def by simp
  ultimately show ?case by simp
qed

lemma deactivate_old_surroundings_slot:
  "sr \<in> set ss \<Longrightarrow> in_bucket s (get_location_key (x_sur sr) (y_sur sr)) r \<Longrightarrow>
   type_te (heap s r) = JUMP \<Longrightarrow> lay \<in> set (activation_collision_layers (heap s r)) \<Longrightarrow>
   \<not> dynamic (heap s r) \<Longrightarrow>
   array_get (active (heap (deactivate_old_surroundings U lay ss s) r))
     (indexOf (activation_directions (heap (deactivate_old_surroundings U lay ss s) r))
        (get_opposite_direcion U (direction sr)))
   = Some False"
proof (induction ss arbitrary: s)
  case Nil
  then show ?case by simp
next
  case (Cons t ss)
  define s1 where "s1 = (case map_events s (get_location_key (x_sur t) (y_sur t)) of
          None \<Rightarrow> s
        | Some b \<Rightarrow> s\<lparr>heap := deactivate_bucket U lay (direction t) b (heap s)\<rparr>)"
  have step: "deactivate_old_surroundings U lay (t # ss) s = deactivate_old_surroundings U lay ss s1"
    unfolding s1_def by simp
  have f: "flags_only s s1"
    unfolding s1_def
    by (auto split: option.split intro: flags_only_refl flags_onlyI deactivate_bucket_flags)
  have static: "in_bucket s1 (get_location_key (x_sur sr) (y_sur sr)) r"
    "type_te (heap s1 r) = JUMP" "lay \<in> set (activation_collision_layers (heap s1 r))"
    "\<not> dynamic (heap s1 r)"
    using Cons.prems(2,3,4,5) flags_only_fields[OF f] by (simp_all add: in_bucket_def)
  show ?case
  proof (cases "sr = t")
    case True
    obtain b where b: "map_events s (get_location_key (x_sur t) (y_sur t)) = Some b" "r \<in> set b"
      using Cons.prems(2) True by (auto simp: in_bucket_def split: option.splits)
    have "heap s1 = deactivate_bucket U lay (direction t) b (heap s)"
      unfolding s1_def by (simp add: b)
    then have "array_get (active (heap s1 r))
        (indexOf (activation_directions (heap s1 r)) (get_opposite_direcion U (direction sr)))
        = Some False"
      using deactivate_bucket_slot[of r b "heap s" lay U "direction t"] b(2) Cons.prems(3,4,5) True
      by simp
    then show ?thesis unfolding step by (rule deactivate_old_surroundings_keeps_false)
  next
    case False
    then have "sr \<in> set ss" using Cons.prems(1) by simp
    then show ?thesis unfolding step using static by (rule Cons.IH)
  qed
qed

lemma deactivate_old_surroundings_untouched:
  "\<not> (type_te (heap s q) = JUMP \<and> lay \<in> set (activation_collision_layers (heap s q))
      \<and> \<not> dynamic (heap s q)) \<Longrightarrow>
   heap (deactivate_old_surroundings U lay ss s) q = heap s q"
proof (induction ss arbitrary: s)
  case Nil
  then show ?case by simp
next
  case (Cons t ss)
  define s1 where "s1 = (case map_events s (get_location_key (x_sur t) (y_sur t)) of
          None \<Rightarrow> s
        | Some b \<Rightarrow> s\<lparr>heap := deactivate_bucket U lay (direction t) b (heap s)\<rparr>)"
  have step: "deactivate_old_surroundings U lay (t # ss) s = deactivate_old_surroundings U lay ss s1"
    unfolding s1_def by simp
  have same: "heap s1 q = heap s q"
    using Cons.prems unfolding s1_def
    by (auto split: option.split simp: deactivate_bucket_untouched)
  then have "\<not> (type_te (heap s1 q) = JUMP \<and> lay \<in> set (activation_collision_layers (heap s1 q))
      \<and> \<not> dynamic (heap s1 q))"
    using Cons.prems by simp
  then have "heap (deactivate_old_surroundings U lay ss s1) q = heap s1 q" by (rule Cons.IH)
  then show ?case unfolding step using same by simp
qed

subsection \<open>Outside calls of a push\<close>

lemma remove_event_calls:
  "remove_event ev s = Inr s1 \<Longrightarrow> \<exists>ws. calls s1 = calls s @ ws \<and> set ws \<subseteq> range Registry_write"
  by (auto simp: remove_event_def Let_def split: option.splits if_splits)

lemma insert_event_calls:
  "\<exists>ws. calls (insert_event k ev s) = calls s @ ws \<and> set ws \<subseteq> range Registry_write"
  by (auto simp: insert_event_def split: option.splits)

lemma move_event_calls:
  assumes "move_event U io dx dy ev s = Inr s4" and "activation_only U"
  shows "\<exists>ws. calls s4 = calls s @ ws \<and> set ws \<subseteq> range Registry_write"
proof -
  define nk where "nk = get_location_key (x_te (heap s ev) + dx) (y_te (heap s ev) + dy)"
  obtain s1 where r: "remove_event ev s = Inr s1"
    using assms(1) by (auto simp: move_event_def split: sum.splits)
  obtain m1 c1 where s1: "s1 = s\<lparr>map_events := m1, calls := c1\<rparr>"
    using remove_event_frame[OF r] by blast
  define s2 where "s2 = s1\<lparr>heap := (heap s)(ev := (heap s ev)
      \<lparr>x_te := x_te (heap s ev) + dx, y_te := y_te (heap s ev) + dy, location_key := nk\<rparr>)\<rparr>"
  define s3 where "s3 = insert_event nk ev s2"
  have s4: "s4 = active_jump_surroundings U s3
      (get_surroundings U (x_te (heap s ev) + dx) (y_te (heap s ev) + dy) False 2)
      (jump_collide_layer_shift io + base_collider_layer io)"
    using assms(1) r by (simp add: move_event_def Let_def s3_def s2_def nk_def s1)
  have f: "flags_only s3 s4"
    using assms(2) unfolding activation_only_def s4 by simp
  obtain ws1 where w1: "calls s1 = calls s @ ws1" "set ws1 \<subseteq> range Registry_write"
    using remove_event_calls[OF r] by blast
  obtain ws2 where w2: "calls s3 = calls s2 @ ws2" "set ws2 \<subseteq> range Registry_write"
    using insert_event_calls[of nk ev s2] unfolding s3_def by blast
  have "calls s4 = calls s @ (ws1 @ ws2)"
    using flags_only_fields(2)[OF f] w1(1) w2(1) by (simp add: s2_def)
  moreover have "set (ws1 @ ws2) \<subseteq> range Registry_write" using w1(2) w2(2) by simp
  ultimately show ?thesis by blast
qed

lemma relocate_event_calls:
  assumes "relocate_event U io dx dy ev s = Inr s'" and "activation_only U"
  shows "\<exists>ws. calls s' = calls s @ ws \<and> set ws \<subseteq> range Registry_write"
proof -
  obtain s4 where m: "move_event U io dx dy ev s = Inr s4" and f: "flags_only s4 s'"
    using relocate_event_cases[OF assms(1)] by blast
  show ?thesis using move_event_calls[OF m assms(2)] flags_only_fields(2)[OF f] by simp
qed

lemma relocate_events_calls:
  "relocate_events U io dx dy evs s = Inr s' \<Longrightarrow> activation_only U \<Longrightarrow>
   \<exists>ws. calls s' = calls s @ ws \<and> set ws \<subseteq> range Registry_write"
proof (induction evs arbitrary: s)
  case Nil
  then show ?case by simp
next
  case (Cons ev evs)
  from Cons.prems(1) obtain s1 where s1: "relocate_event U io dx dy ev s = Inr s1"
    and rest: "relocate_events U io dx dy evs s1 = Inr s'"
    by (auto split: sum.splits)
  obtain ws1 where w1: "calls s1 = calls s @ ws1" "set ws1 \<subseteq> range Registry_write"
    using relocate_event_calls[OF s1 Cons.prems(2)] by blast
  obtain ws2 where w2: "calls s' = calls s1 @ ws2" "set ws2 \<subseteq> range Registry_write"
    using Cons.IH[OF rest Cons.prems(2)] by blast
  have "calls s' = calls s @ (ws1 @ ws2)" using w1(1) w2(1) by simp
  moreover have "set (ws1 @ ws2) \<subseteq> range Registry_write" using w1(2) w2(2) by simp
  ultimately show ?case by blast
qed

subsection \<open>The join on the transitions\<close>

lemma tweens_complete_settled: "tweens_complete bs (s, None) = (s, None)"
  by (induction bs) (simp_all add: tween_complete_def)

lemma tweens_complete_join:
  "unresolved p \<noteq> [] \<Longrightarrow>
   tweens_complete bs (s, Some p) =
     (if set (unresolved p) \<subseteq> set bs
      then (s\<lparr>pushing := False,
              calls := calls s @ [Physics_resume] @ (if then_push_end p then [Push_end] else [])\<rparr>,
            None)
      else (s, Some (p\<lparr>unresolved := filter (\<lambda>b. b \<notin> set bs) (unresolved p)\<rparr>)))"
proof (induction bs arbitrary: p)
  case Nil
  then show ?case by simp
next
  case (Cons b bs)
  show ?case
  proof (cases "removeAll b (unresolved p) = []")
    case True
    then have "set (removeAll b (unresolved p)) = {}" by simp
    then have "set (unresolved p) \<subseteq> set (b # bs)" by auto
    then show ?thesis using True
      by (simp add: tween_complete_def tweens_complete_settled)
  next
    case False
    have sub: "set (removeAll b (unresolved p)) \<subseteq> set bs \<longleftrightarrow> set (unresolved p) \<subseteq> set (b # bs)"
      by auto
    have fil: "filter (\<lambda>x. x \<notin> set bs) (removeAll b (unresolved p))
               = filter (\<lambda>x. x \<notin> set (b # bs)) (unresolved p)"
      by (auto simp: removeAll_filter_not_eq intro: filter_cong)
    have "tweens_complete (b # bs) (s, Some p)
          = tweens_complete bs (s, Some (p\<lparr>unresolved := removeAll b (unresolved p)\<rparr>))"
      using False by (simp add: tween_complete_def)
    also have "\<dots> = (if set (removeAll b (unresolved p)) \<subseteq> set bs
      then (s\<lparr>pushing := False,
              calls := calls s @ [Physics_resume] @ (if then_push_end p then [Push_end] else [])\<rparr>,
            None)
      else (s, Some (p\<lparr>unresolved := filter (\<lambda>x. x \<notin> set bs) (removeAll b (unresolved p))\<rparr>)))"
      using Cons.IH[of "p\<lparr>unresolved := removeAll b (unresolved p)\<rparr>"] False by simp
    finally show ?thesis unfolding sub fil .
  qed
qed

subsection \<open>When the relocation does not throw\<close>

lemma relocate_event_returns:
  "in_bucket s (location_key (heap s ev)) ev \<Longrightarrow> \<exists>s'. relocate_event U io dx dy ev s = Inr s'"
  by (auto simp: relocate_event_def move_event_def remove_event_def in_bucket_def Let_def
      split: option.splits)

lemma relocate_events_returns:
  "activation_only U \<Longrightarrow> distinct evs \<Longrightarrow> inj_on (\<lambda>q. id_te (heap s q)) (set evs) \<Longrightarrow>
   \<forall>ev \<in> set evs. in_bucket s (location_key (heap s ev)) ev \<Longrightarrow>
   \<exists>s'. relocate_events U io dx dy evs s = Inr s'"
proof (induction evs arbitrary: s)
  case Nil
  then show ?case by simp
next
  case (Cons ev evs)
  obtain s1 where s1: "relocate_event U io dx dy ev s = Inr s1"
    using relocate_event_returns[of s ev U io dx dy] Cons.prems(4) by auto
  have heap1: "\<exists>a. heap s1 q = (heap s q)\<lparr>active := a\<rparr>" if "q \<noteq> ev" for q
    using relocate_event_heap[OF s1 Cons.prems(1), of q] that by simp
  have ids: "id_te (heap s1 q) = id_te (heap s q)" for q
    using relocate_event_heap[OF s1 Cons.prems(1), of q] by (cases "q = ev") auto
  have inj1: "inj_on (\<lambda>q. id_te (heap s1 q)) (set evs)"
    using Cons.prems(3) by (simp add: ids inj_on_def)
  have reg: "in_bucket s1 (location_key (heap s1 q)) q" if "q \<in> set evs" for q
  proof -
    have ne: "q \<noteq> ev" using that Cons.prems(2) by auto
    then have idne: "id_te (heap s q) \<noteq> id_te (heap s ev)"
      using Cons.prems(3) that by (auto simp: inj_on_def)
    obtain a where "heap s1 q = (heap s q)\<lparr>active := a\<rparr>" using heap1[OF ne] by blast
    then have "location_key (heap s1 q) = location_key (heap s q)" by simp
    moreover have "in_bucket s (location_key (heap s q)) q" using Cons.prems(4) that by simp
    ultimately show ?thesis
      using relocate_event_bucket[OF s1 Cons.prems(1), of "location_key (heap s q)" q] idne by simp
  qed
  have "distinct evs" using Cons.prems(2) by simp
  from Cons.IH[OF Cons.prems(1) this inj1] reg
  obtain s' where "relocate_events U io dx dy evs s1 = Inr s'" by blast
  then show ?case using s1 by simp
qed

lemma fire_push_movement_returns:
  assumes "activation_only U" and "distinct (object_events io)"
    and "inj_on (\<lambda>q. id_te (heap s q)) (set (object_events io))"
    and "\<forall>ev \<in> set (object_events io). in_bucket s (location_key (heap s ev)) ev"
  shows "\<exists>s' io' p. fire_push_movement U s io push_end before_move target_only = Inr (s', io', p)"
proof -
  define s0 where "s0 = (if \<not> target_only then s\<lparr>pushing := True, actual_action := ''push''\<rparr> else s)
                \<lparr>calls := calls s @ [Physics_pause]\<rparr>"
  have h0: "heap s0 = heap s" and m0: "in_bucket s0 = in_bucket s"
    by (auto simp: s0_def in_bucket_def fun_eq_iff)
  obtain s3 where "relocate_events U io (fst (event_shift (trying_to_push_direction s)))
             (snd (event_shift (trying_to_push_direction s))) (object_events io) s0 = Inr s3"
    using relocate_events_returns[OF assms(1,2), of s0 io] assms(3,4) unfolding h0 m0 by blast
  then show ?thesis
    unfolding s0_def by (cases target_only) (auto simp: fire_push_movement_def Let_def)
qed

lemma normal_push_returns:
  assumes "activation_only U" and "distinct (object_events io)"
    and "inj_on (\<lambda>q. id_te (heap s q)) (set (object_events io))"
    and "\<forall>ev \<in> set (object_events io). in_bucket s (location_key (heap s ev)) ev"
  shows "\<exists>s' io' p. normal_push U s io = Inr (s', io', p)"
proof -
  obtain s1 io1 p1 where "fire_push_movement U s io False False False = Inr (s1, io1, p1)"
    using fire_push_movement_returns[OF assms] by blast
  then show ?thesis by (simp add: normal_push_def)
qed

section \<open>The claims\<close>

text \<open>
  Claim C1. After a push that went ahead in a cardinal direction, every event owned by
  the pushed object has its coordinates shifted by the unit vector of the direction
  (\<open>up\<close>: \<open>(0,-1)\<close>, \<open>down\<close>: \<open>(0,+1)\<close>, \<open>left\<close>: \<open>(-1,0)\<close>, \<open>right\<close>: \<open>(+1,0)\<close>),
  its \<open>location_key\<close> is the key of its new coordinates, it is in the bucket under its
  new key and no longer in the bucket under its old key. The owned events are distinct
  objects with distinct identifiers, as the constructor hands them out, and each had
  the key of its coordinates before the push.
\<close>

theorem push_relocates_owned_events:
  assumes "activation_only U"
    and "fire_push_movement U s io push_end before_move target_only = Inr (s', io', Some j)"
    and "trying_to_push_direction s \<in> {Up, Down, Left, Right}"
    and "distinct (object_events io)"
    and "inj_on (\<lambda>q. id_te (heap s q)) (set (object_events io))"
    and "ev \<in> set (object_events io)"
    and "location_key (heap s ev) = get_location_key (x_te (heap s ev)) (y_te (heap s ev))"
  shows "x_te (heap s' ev) = x_te (heap s ev)
           + (case trying_to_push_direction s of Left \<Rightarrow> - 1 | Right \<Rightarrow> 1 | _ \<Rightarrow> 0)
       \<and> y_te (heap s' ev) = y_te (heap s ev)
           + (case trying_to_push_direction s of Up \<Rightarrow> - 1 | Down \<Rightarrow> 1 | _ \<Rightarrow> 0)
       \<and> location_key (heap s' ev) = get_location_key (x_te (heap s' ev)) (y_te (heap s' ev))
       \<and> in_bucket s' (location_key (heap s' ev)) ev
       \<and> \<not> in_bucket s' (location_key (heap s ev)) ev"
proof -
  define dx where "dx = fst (event_shift (trying_to_push_direction s))"
  define dy where "dy = snd (event_shift (trying_to_push_direction s))"
  define s0 where "s0 = (if \<not> target_only then s\<lparr>pushing := True, actual_action := ''push''\<rparr> else s)
                \<lparr>calls := calls s @ [Physics_pause]\<rparr>"
  obtain s3 c where r: "relocate_events U io dx dy (object_events io) s0 = Inr s3"
    and s': "s' = s3\<lparr>calls := c\<rparr>"
    using fire_push_movement_fired[OF assms(2)] unfolding dx_def dy_def s0_def by blast
  have h0: "heap s0 = heap s" and m0: "map_events s0 = map_events s"
    by (simp_all add: s0_def)
  have inj: "inj_on (\<lambda>q. id_te (heap s0 q)) (set (object_events io))"
    using assms(5) by (simp add: h0)
  define nk where "nk = get_location_key (x_te (heap s ev) + dx) (y_te (heap s ev) + dy)"
  from relocate_events_moved[OF r assms(1,4) inj assms(6)]
  obtain a where h: "heap s3 ev = (heap s ev)\<lparr>x_te := x_te (heap s ev) + dx,
        y_te := y_te (heap s ev) + dy, location_key := nk, active := a\<rparr>"
    and inb: "in_bucket s3 nk ev"
    and out: "nk \<noteq> location_key (heap s ev) \<longrightarrow> \<not> in_bucket s3 (location_key (heap s ev)) ev"
    unfolding nk_def h0 by blast
  have shift: "(dx, dy) \<noteq> (0, 0)"
    using assms(3) by (auto simp: dx_def dy_def event_shift_def)
  have "nk \<noteq> location_key (heap s ev)"
    using shift unfolding nk_def assms(7) get_location_key_inj by auto
  then have gone: "\<not> in_bucket s3 (location_key (heap s ev)) ev" using out by simp
  have b': "in_bucket s' k q = in_bucket s3 k q" for k q
    by (rule in_bucket_same_registry) (simp add: s')
  have dxv: "dx = (case trying_to_push_direction s of Left \<Rightarrow> - 1 | Right \<Rightarrow> 1 | _ \<Rightarrow> 0)"
    and dyv: "dy = (case trying_to_push_direction s of Up \<Rightarrow> - 1 | Down \<Rightarrow> 1 | _ \<Rightarrow> 0)"
    using assms(3) by (auto simp: dx_def dy_def event_shift_def)
  have hs': "heap s' = heap s3" by (simp add: s')
  show ?thesis
    using h inb gone unfolding hs' b' dxv[symmetric] dyv[symmetric] by (simp add: nk_def)
qed

text \<open>
  The push to the right in the scene: the second owned event goes from \<open>(3,4)\<close> to
  \<open>(4,4)\<close>.
\<close>

theorem push_relocates_owned_events_witness:
  "\<exists>s' io' j. fire_push_movement scene_utils scene_data scene_object False False False
                  = Inr (s', io', Some j)
     \<and> x_te (heap s' 1) = 4 \<and> y_te (heap s' 1) = 4 \<and> location_key (heap s' 1) = ''4_4''
     \<and> in_bucket s' ''4_4'' 1 \<and> \<not> in_bucket s' ''3_4'' 1"
proof -
  obtain s' io' j where f: "fire_push_movement scene_utils scene_data scene_object False False False
                  = Inr (s', io', Some j)"
    using scene_eval by blast
  have 1: "trying_to_push_direction scene_data \<in> {Up, Down, Left, Right}"
    and 2: "distinct (object_events scene_object)"
    and 3: "inj_on (\<lambda>q. id_te (heap scene_data q)) (set (object_events scene_object))"
    and 4: "1 \<in> set (object_events scene_object)"
    and 5: "location_key (heap scene_data 1)
            = get_location_key (x_te (heap scene_data 1)) (y_te (heap scene_data 1))"
    by (simp_all add: scene_data_def scene_object_def scene_heap_def scene_event_def)
  have k: "get_location_key 4 4 = ''4_4''"
    by (simp add: scene_defs)
  have v: "x_te (heap scene_data 1) = 3" "y_te (heap scene_data 1) = 4"
    "trying_to_push_direction scene_data = Right" "location_key (heap scene_data 1) = ''3_4''"
    by (simp_all add: scene_defs)
  note th = push_relocates_owned_events[OF scene_utils_activation_only f 1 2 3 4 5, unfolded v]
  have x: "x_te (heap s' 1) = 4" and y: "y_te (heap s' 1) = 4"
    using th by simp_all
  have c: "location_key (heap s' 1) = get_location_key (x_te (heap s' 1)) (y_te (heap s' 1))"
    and b: "in_bucket s' (location_key (heap s' 1)) 1"
    and "\<not> in_bucket s' ''3_4'' 1"
    using th by blast+
  have l: "location_key (heap s' 1) = ''4_4''"
    using c x y k by simp
  have "in_bucket s' ''4_4'' 1"
    using b l by simp
  then show ?thesis using f x y l \<open>\<not> in_bucket s' ''3_4'' 1\<close> by blast
qed

text \<open>
  Claim C2. The registry invariant: no bucket is empty, every event of the map is in the
  bucket under its \<open>location_key\<close>, and the registry holds an event under no other key.
  It is preserved by every relocation step that completes, and so it holds after any
  sequence of pushes that starts in a state where it holds. The events of the map have
  distinct identifiers, as the constructor hands them out, and the pushed objects' events
  are among them.
\<close>

theorem registry_invariant_preserved:
  assumes "activation_only U" and "registry_inv s"
    and "inj_on (\<lambda>q. id_te (heap s q)) E" and "registered E s"
  shows "(ev \<in> E \<and> relocate_event U io dx dy ev s = Inr s1 \<longrightarrow>
            registry_inv s1 \<and> registered E s1) \<and>
         (pushes E U s s' \<longrightarrow>
            registry_inv s' \<and> registered E s' \<and>
            (\<forall>k b. map_events s' k = Some b \<longrightarrow> b \<noteq> []) \<and>
            (\<forall>e \<in> E. \<exists>b. map_events s' (location_key (heap s' e)) = Some b \<and> e \<in> set b) \<and>
            (\<forall>k b e. map_events s' k = Some b \<and> e \<in> set b \<longrightarrow> k = location_key (heap s' e)))"
proof (intro conjI impI)
  assume a: "ev \<in> E \<and> relocate_event U io dx dy ev s = Inr s1"
  then show "registry_inv s1" using relocate_event_registry_inv assms(1,2) by blast
  show "registered E s1"
    using a relocate_event_registered[of U io dx dy ev s s1 E] assms(1,3,4) by blast
next
  assume p: "pushes E U s s'"
  then show inv: "registry_inv s'" using assms(1,2) by (rule pushes_registry_inv)
  show reg: "registered E s'" using pushes_registered[OF p assms(1,3,4)] by blast
  show "\<forall>k b. map_events s' k = Some b \<longrightarrow> b \<noteq> []"
    using inv by (simp add: registry_inv_def)
  show "\<forall>e \<in> E. \<exists>b. map_events s' (location_key (heap s' e)) = Some b \<and> e \<in> set b"
    using reg by (auto simp: registered_def in_bucket_def split: option.splits)
  show "\<forall>k b e. map_events s' k = Some b \<and> e \<in> set b \<longrightarrow> k = location_key (heap s' e)"
    using inv by (auto simp: registry_inv_def)
qed

text \<open>
  The four events of the scene satisfy the invariant, and so does the state after the
  push to the right.
\<close>

theorem registry_invariant_preserved_witness:
  "registry_inv scene_data \<and> registered {0, 1, 2, 3} scene_data \<and>
   (\<exists>s' io' p. normal_push scene_utils scene_data scene_object = Inr (s', io', p) \<and>
      pushes {0, 1, 2, 3} scene_utils scene_data s' \<and> registry_inv s' \<and>
      registered {0, 1, 2, 3} s' \<and> in_bucket s' ''4_3'' 0)"
proof -
  obtain s1 io' j where f: "fire_push_movement scene_utils scene_data scene_object False False False
                  = Inr (s1, io', Some j)"
    using scene_eval by blast
  define s' where "s' = s1\<lparr>trying_to_push := False, push_timer := None\<rparr>"
  have n: "normal_push scene_utils scene_data scene_object = Inr (s', io', Some j)"
    using f by (simp add: normal_push_def s'_def scene_data_def)
  have sub: "set (object_events scene_object) \<subseteq> {0, 1, 2, 3}"
    by (simp add: scene_object_def)
  have p: "pushes {0, 1, 2, 3} scene_utils scene_data s'"
    by (rule pushes_normal[OF pushes_start sub n])
  have inj: "inj_on (\<lambda>q. id_te (heap scene_data q)) {0, 1, 2, 3}"
    by (simp add: scene_data_def scene_heap_def scene_event_def)
  have reg: "registered {0, 1, 2, 3} scene_data"
    by (simp add: registered_def in_bucket_def scene_defs)
  have "registry_inv s' \<and> registered {0, 1, 2, 3} s'"
    using registry_invariant_preserved[OF scene_utils_activation_only scene_registry_inv inj reg,
        of 0 scene_object 0 0 s' s'] p by blast
  moreover have "in_bucket s' ''4_3'' 0"
  proof -
    have "in_bucket s1 ''4_3'' 0"
      using f by (auto simp: scene_defs in_bucket_def)
    then show ?thesis by (simp add: s'_def in_bucket_def)
  qed
  ultimately show ?thesis using n p scene_registry_inv reg by blast
qed

text \<open>
  Claim C3. The classifier compares \<open>-hero.y\<close> with both limits, boundary included, and
  takes the first of \<open>down\<close>, \<open>left\<close>, \<open>up\<close>, \<open>right\<close> whose test holds, so it assigns
  exactly one quadrant and a tie never yields \<open>right\<close>. A push that is not target-only
  relocates nothing unless the quadrant is the requested direction. For the limits
  \<open>10\<close> and \<open>-10\<close> and \<open>hero.y = -15\<close> the quadrant is \<open>down\<close>.
\<close>

theorem direction_validation:
  "(\<exists>!q. quadrant pl nl hy = Some q)
   \<and> (quadrant pl nl hy = Some Down \<longleftrightarrow> pl \<le> - hy \<and> nl \<le> - hy)
   \<and> (quadrant pl nl hy = Some Left \<longleftrightarrow> - hy < pl \<and> nl \<le> - hy)
   \<and> (quadrant pl nl hy = Some Up \<longleftrightarrow> - hy \<le> pl \<and> - hy < nl)
   \<and> (quadrant pl nl hy = Some Right \<longleftrightarrow> pl < - hy \<and> - hy < nl)
   \<and> expected_position s io
       = quadrant (hero_x s + (- sprite_y io - sprite_x io))
                  (- hero_x s + (- sprite_y io + sprite_x io)) (hero_y s)
   \<and> (expected_position s io \<noteq> Some (trying_to_push_direction s) \<longrightarrow>
        fire_push_movement U s io push_end before_move False = Inr (s, io, None))
   \<and> (fire_push_movement U s io push_end before_move False = Inr (s', io', Some j) \<longrightarrow>
        expected_position s io = Some (trying_to_push_direction s))
   \<and> quadrant 10 (- 10) (- 15) = Some Down"
proof -
  have one: "\<exists>!q. quadrant pl nl hy = Some q"
    by (auto simp: quadrant_def)
  have fired: "expected_position s io = Some (trying_to_push_direction s)"
    if "fire_push_movement U s io push_end before_move False = Inr (s', io', Some j)"
    using that by (auto simp: fire_push_movement_def Let_def split: if_splits)
  show ?thesis
    using one fired
    by (auto simp: quadrant_def expected_position_def positive_limit_def negative_limit_def
        fire_push_movement_rejected)
qed

text \<open>
  In the scene the hero stands left of the object, so the quadrant is \<open>right\<close>: a request
  to push \<open>up\<close> is rejected and leaves the state as it was.
\<close>

theorem direction_validation_witness:
  "expected_position (scene_data\<lparr>trying_to_push_direction := Up\<rparr>) scene_object = Some Right
   \<and> fire_push_movement scene_utils (scene_data\<lparr>trying_to_push_direction := Up\<rparr>) scene_object
        False False False
      = Inr (scene_data\<lparr>trying_to_push_direction := Up\<rparr>, scene_object, None)"
proof -
  have e: "expected_position (scene_data\<lparr>trying_to_push_direction := Up\<rparr>) scene_object = Some Right"
    by (simp add: scene_defs)
  then have "expected_position (scene_data\<lparr>trying_to_push_direction := Up\<rparr>) scene_object
      \<noteq> Some (trying_to_push_direction (scene_data\<lparr>trying_to_push_direction := Up\<rparr>))"
    by simp
  then show ?thesis
    using e direction_validation[of 0 0 0 "scene_data\<lparr>trying_to_push_direction := Up\<rparr>"
        scene_object scene_utils False False]
    by blast
qed

text \<open>
  Claim C4. \<open>normal_push\<close> starts the push movement only when the request flag is set,
  the requested direction is cardinal and equals the facing direction, and the actor
  is neither casting nor jumping. When one of the five conditions fails, the call
  returns the state it was given with \<open>trying_to_push\<close> cleared (and the timer reset):
  no event, no bucket and no outside call changes.
\<close>

theorem normal_push_entry_conditions:
  "(\<not> (trying_to_push s \<and> trying_to_push_direction s \<in> {Up, Down, Left, Right}
        \<and> trying_to_push_direction s = actual_direction s
        \<and> \<not> casting_psynergy s \<and> \<not> jumping s) \<longrightarrow>
      normal_push U s io = Inr (s\<lparr>trying_to_push := False, push_timer := None\<rparr>, io, None)
      \<and> heap (s\<lparr>trying_to_push := False, push_timer := None\<rparr>) = heap s
      \<and> map_events (s\<lparr>trying_to_push := False, push_timer := None\<rparr>) = map_events s
      \<and> calls (s\<lparr>trying_to_push := False, push_timer := None\<rparr>) = calls s
      \<and> \<not> trying_to_push (s\<lparr>trying_to_push := False, push_timer := None\<rparr>))
   \<and> (normal_push U s io = Inr (s', io', Some j) \<longrightarrow>
        trying_to_push s \<and> trying_to_push_direction s \<in> {Up, Down, Left, Right}
        \<and> trying_to_push_direction s = actual_direction s
        \<and> \<not> casting_psynergy s \<and> \<not> jumping s)"
  by (auto simp: normal_push_def split: if_splits)

text \<open>The hero of the scene, in the middle of a psynergy cast, asks for the push.\<close>

theorem normal_push_entry_conditions_witness:
  "casting_psynergy (scene_data\<lparr>casting_psynergy := True\<rparr>)
   \<and> normal_push scene_utils (scene_data\<lparr>casting_psynergy := True\<rparr>) scene_object
      = Inr (scene_data\<lparr>casting_psynergy := True, trying_to_push := False, push_timer := None\<rparr>,
             scene_object, None)
   \<and> map_events (scene_data\<lparr>casting_psynergy := True, trying_to_push := False, push_timer := None\<rparr>)
      = map_events scene_data"
  using normal_push_entry_conditions[of "scene_data\<lparr>casting_psynergy := True\<rparr>" scene_utils
      scene_object]
  by simp

text \<open>
  Claim C5. In the iteration that relocates an owned event, once the event has moved,
  the pass over the surroundings of its old position (as \<open>get_surroundings\<close> with radius
  \<open>2\<close> lists them) leaves every Jump-type event that the registry holds at such a tile,
  that is not dynamic and whose collision layers include the target layer, with the flag
  of the direction opposite to the tile's offset direction cleared; an event that is
  dynamic is the same object state after the pass as before it.
\<close>

theorem old_surroundings_deactivated:
  assumes "move_event U io dx dy ev s = Inr s4"
  shows "\<exists>s'. relocate_event U io dx dy ev s = Inr s' \<and>
     (\<forall>sr \<in> set (get_surroundings U (x_te (heap s ev)) (y_te (heap s ev)) False 2). \<forall>r.
        in_bucket s' (get_location_key (x_sur sr) (y_sur sr)) r \<and>
        type_te (heap s' r) = JUMP \<and> \<not> dynamic (heap s' r) \<and>
        jump_collide_layer_shift io + base_collider_layer io
          \<in> set (activation_collision_layers (heap s' r))
        \<longrightarrow> array_get (active (heap s' r))
              (indexOf (activation_directions (heap s' r)) (get_opposite_direcion U (direction sr)))
            = Some False
          \<and> \<not> flag_set (heap s' r) (get_opposite_direcion U (direction sr))) \<and>
     (\<forall>q. dynamic (heap s4 q) \<longrightarrow> heap s' q = heap s4 q)"
proof -
  define lay where "lay = jump_collide_layer_shift io + base_collider_layer io"
  define ss where "ss = get_surroundings U (x_te (heap s ev)) (y_te (heap s ev)) False 2"
  define s' where "s' = deactivate_old_surroundings U lay ss s4"
  have r: "relocate_event U io dx dy ev s = Inr s'"
    using assms by (simp add: relocate_event_def Let_def s'_def lay_def ss_def)
  have f: "flags_only s4 s'"
    unfolding s'_def by (rule deactivate_old_surroundings_flags)
  have slot: "array_get (active (heap s' q))
              (indexOf (activation_directions (heap s' q)) (get_opposite_direcion U (direction sr)))
            = Some False"
    if "sr \<in> set ss" "in_bucket s' (get_location_key (x_sur sr) (y_sur sr)) q"
      "type_te (heap s' q) = JUMP" "\<not> dynamic (heap s' q)"
      "lay \<in> set (activation_collision_layers (heap s' q))" for sr q
  proof -
    have "in_bucket s4 (get_location_key (x_sur sr) (y_sur sr)) q"
      "type_te (heap s4 q) = JUMP" "lay \<in> set (activation_collision_layers (heap s4 q))"
      "\<not> dynamic (heap s4 q)"
      using that flags_only_fields[OF f] by (simp_all add: in_bucket_def)
    then show ?thesis
      unfolding s'_def using that(1) by (intro deactivate_old_surroundings_slot)
  qed
  have noflag: "\<not> flag_set e d" if "array_get (active e) (indexOf (activation_directions e) d) = Some False"
    for e d
    using that by (simp add: flag_set_def array_get_def)
  have untouched: "heap s' q = heap s4 q" if "dynamic (heap s4 q)" for q
    unfolding s'_def using that by (intro deactivate_old_surroundings_untouched) simp
  show ?thesis
    using r slot noflag untouched unfolding lay_def ss_def by blast
qed

text \<open>
  In the scene, the first owned event leaves \<open>(3,3)\<close>: the static jump event at \<open>(1,3)\<close>,
  to the left, loses its flag for \<open>right\<close>, and the dynamic one at \<open>(3,1)\<close> is as it was.
\<close>

theorem old_surroundings_deactivated_witness:
  "\<exists>s4 s'. move_event scene_utils scene_object 1 0 0 scene_data = Inr s4 \<and>
     relocate_event scene_utils scene_object 1 0 0 scene_data = Inr s' \<and>
     is_active (heap scene_data 2) Right \<and> \<not> is_active (heap s' 2) Right \<and>
     dynamic (heap s4 3) \<and> heap s' 3 = heap s4 3"
proof -
  have "\<exists>s4. move_event scene_utils scene_object 1 0 0 scene_data = Inr s4"
    by (simp add: scene_defs)
  then obtain s4 where m: "move_event scene_utils scene_object 1 0 0 scene_data = Inr s4"
    by blast
  from old_surroundings_deactivated[OF m] obtain s'
    where r: "relocate_event scene_utils scene_object 1 0 0 scene_data = Inr s'"
      and slot: "\<forall>sr \<in> set (get_surroundings scene_utils (x_te (heap scene_data 0))
                     (y_te (heap scene_data 0)) False 2). \<forall>r.
        in_bucket s' (get_location_key (x_sur sr) (y_sur sr)) r \<and>
        type_te (heap s' r) = JUMP \<and> \<not> dynamic (heap s' r) \<and>
        jump_collide_layer_shift scene_object + base_collider_layer scene_object
          \<in> set (activation_collision_layers (heap s' r))
        \<longrightarrow> array_get (active (heap s' r))
              (indexOf (activation_directions (heap s' r))
                 (get_opposite_direcion scene_utils (direction sr)))
            = Some False
          \<and> \<not> flag_set (heap s' r) (get_opposite_direcion scene_utils (direction sr))"
      and same: "\<forall>q. dynamic (heap s4 q) \<longrightarrow> heap s' q = heap s4 q"
    by blast
  have tile: "\<lparr>x_sur = 1, y_sur = 3, direction = Left\<rparr>
      \<in> set (get_surroundings scene_utils (x_te (heap scene_data 0)) (y_te (heap scene_data 0)) False 2)"
    by (simp add: scene_defs)
  obtain a where a: "heap s' 2 = (heap scene_data 2)\<lparr>active := a\<rparr>"
    using relocate_event_heap[OF r scene_utils_activation_only, of 2] by auto
  have b: "in_bucket s' (get_location_key 1 3) 2"
    using relocate_event_bucket[OF r scene_utils_activation_only, of "get_location_key 1 3" 2]
    by (simp add: scene_defs in_bucket_def)
  have "array_get (active (heap s' 2)) (indexOf (activation_directions (heap s' 2)) Right) = Some False"
    using bspec[OF slot tile, THEN spec, of 2] a b
    by (simp add: scene_defs)
  then have off: "\<not> is_active (heap s' 2) Right"
    by (simp add: is_active_def truthy_def)
  have on: "is_active (heap scene_data 2) Right"
    by (simp add: is_active_def truthy_def array_get_def scene_defs)
  obtain a3 where "heap s4 3 = (heap scene_data 3)\<lparr>active := a3\<rparr>"
    using move_event_heap[OF m scene_utils_activation_only, of 3] by auto
  then have d: "dynamic (heap s4 3)" by (simp add: scene_defs)
  then have "heap s' 3 = heap s4 3" using same by blast
  then show ?thesis using m r on off d by blast
qed

text \<open>
  Claim C6. A push that goes ahead pauses physics once, before any write to the
  registry: what it adds to the log of outside calls is the pause, then registry writes
  only, then the \<open>before_move\<close> hook if supplied, then one tween for each scheduled body
  (the object's body, and the shadow and the hero's body unless target-only). Whatever
  completion signals arrive afterwards, physics resumes exactly when every scheduled
  body has signalled, it resumes once, and the \<open>push_end\<close> hook, if supplied, is called
  right after the resume; while a scheduled body has not signalled, nothing is added to
  the log and the join stays pending.
\<close>

theorem push_pause_resume_protocol:
  assumes "activation_only U"
    and "fire_push_movement U s io push_end before_move target_only = Inr (s1, io', Some j)"
  shows "unresolved j = (if target_only then [Object_body] else [Object_body, Shadow, Hero_body])
     \<and> (\<exists>ws. calls s1 = calls s @ [Physics_pause] @ ws
                 @ (if before_move then [Before_move] else []) @ map Tween (unresolved j)
             \<and> set ws \<subseteq> range Registry_write)
     \<and> (\<forall>bs. tweens_complete bs (s1, Some j) =
           (if set (unresolved j) \<subseteq> set bs
            then (s1\<lparr>pushing := False,
                     calls := calls s1 @ [Physics_resume] @ (if push_end then [Push_end] else [])\<rparr>,
                  None)
            else (s1, Some (j\<lparr>unresolved := filter (\<lambda>b. b \<notin> set bs) (unresolved j)\<rparr>))))"
proof -
  define s0 where "s0 = (if \<not> target_only then s\<lparr>pushing := True, actual_action := ''push''\<rparr> else s)
                \<lparr>calls := calls s @ [Physics_pause]\<rparr>"
  define sprites where "sprites = [Object_body] @ (if \<not> target_only then [Shadow, Hero_body] else [])"
  obtain s3 where r: "relocate_events U io (fst (event_shift (trying_to_push_direction s)))
             (snd (event_shift (trying_to_push_direction s))) (object_events io) s0 = Inr s3"
    and s1: "s1 = s3\<lparr>calls := calls s3 @ (if before_move then [Before_move] else [])
                                         @ map Tween sprites\<rparr>"
    and j: "j = \<lparr>unresolved = sprites, then_push_end = push_end\<rparr>"
    using assms(2) unfolding s0_def sprites_def
    by (auto simp: fire_push_movement_def Let_def split: if_splits sum.splits)
  obtain ws where ws: "calls s3 = calls s0 @ ws" "set ws \<subseteq> range Registry_write"
    using relocate_events_calls[OF r assms(1)] by blast
  have bodies: "unresolved j = (if target_only then [Object_body] else [Object_body, Shadow, Hero_body])"
    by (simp add: j sprites_def)
  have log: "calls s1 = calls s @ [Physics_pause] @ ws
                 @ (if before_move then [Before_move] else []) @ map Tween (unresolved j)"
    using ws(1) by (simp add: s1 j s0_def)
  have "unresolved j \<noteq> []" by (simp add: bodies)
  then have join: "tweens_complete bs (s1, Some j) =
           (if set (unresolved j) \<subseteq> set bs
            then (s1\<lparr>pushing := False,
                     calls := calls s1 @ [Physics_resume] @ (if push_end then [Push_end] else [])\<rparr>,
                  None)
            else (s1, Some (j\<lparr>unresolved := filter (\<lambda>b. b \<notin> set bs) (unresolved j)\<rparr>)))" for bs
    using tweens_complete_join[of j bs s1] by (simp add: j)
  show ?thesis using bodies log ws(2) join by blast
qed

text \<open>
  The push of the scene: after the shadow and the object's body have signalled, physics
  is still paused; the hero's body completes the join.
\<close>

theorem push_pause_resume_protocol_witness:
  "\<exists>s1 io' j. fire_push_movement scene_utils scene_data scene_object False False False
                 = Inr (s1, io', Some j)
     \<and> hd (calls s1) = Physics_pause
     \<and> tweens_complete [Shadow, Object_body] (s1, Some j)
         = (s1, Some (j\<lparr>unresolved := [Hero_body]\<rparr>))
     \<and> tweens_complete [Shadow, Object_body, Hero_body, Shadow] (s1, Some j)
         = (s1\<lparr>pushing := False, calls := calls s1 @ [Physics_resume]\<rparr>, None)"
proof -
  obtain s1 io' j where f: "fire_push_movement scene_utils scene_data scene_object False False False
                  = Inr (s1, io', Some j)"
    using scene_eval by blast
  note th = push_pause_resume_protocol[OF scene_utils_activation_only f]
  have u: "unresolved j = [Object_body, Shadow, Hero_body]" using th by simp
  have "hd (calls s1) = Physics_pause"
    using th by (auto simp: scene_data_def)
  moreover have "tweens_complete [Shadow, Object_body] (s1, Some j)
         = (s1, Some (j\<lparr>unresolved := [Hero_body]\<rparr>))"
    using th[THEN conjunct2, THEN conjunct2, THEN spec, of "[Shadow, Object_body]"] u by simp
  moreover have "tweens_complete [Shadow, Object_body, Hero_body, Shadow] (s1, Some j)
         = (s1\<lparr>pushing := False, calls := calls s1 @ [Physics_resume]\<rparr>, None)"
    using th[THEN conjunct2, THEN conjunct2, THEN spec, of "[Shadow, Object_body, Hero_body, Shadow]"] u
    by simp
  ultimately show ?thesis using f by blast
qed

text \<open>
  Claim C7. \<open>is_active(d)\<close> is to be true exactly when one of the elementary directions
  into which \<open>d\<close> splits has its activation flag set on the event, and a pure cardinal
  direction splits into itself. The code reads \<open>active\<close> at the result of \<open>indexOf\<close>
  without testing it for \<open>-1\<close>: on the event whose only activation direction is \<open>up\<close>,
  after \<open>activate_at(down)\<close> has stored \<open>true\<close> under the key \<open>-1\<close>, \<open>is_active(down)\<close>
  is true although \<open>down\<close> splits into itself and has no flag on the event.
\<close>

theorem is_active_reads_stray_flag:
  "split_direction Down = [Down] \<and>
   is_active (activate_at up_event Down) Down \<and>
   \<not> (\<exists>p \<in> set (split_direction Down). flag_set (activate_at up_event Down) p)"
  by (simp add: up_event_def is_active_def activate_at_def array_set_def array_get_def
      array_fill_def truthy_def flag_set_def)

text \<open>
  Claim C8. \<open>activate_at(d)\<close> and \<open>deactivate_at(d)\<close> with a direction \<open>d\<close> that is not
  among the event's activation directions are to leave every later answer of
  \<open>is_active\<close> as it was. The code writes \<open>active[-1]\<close>: on the event whose only
  activation direction is \<open>up\<close>, \<open>is_active(down)\<close> is false before \<open>activate_at(down)\<close>
  and true after it.
\<close>

theorem activate_at_missing_direction_is_observable:
  "Down \<notin> set (activation_directions up_event) \<and>
   \<not> is_active up_event Down \<and>
   is_active (activate_at up_event Down) Down"
  by (simp add: up_event_def is_active_def activate_at_def array_set_def array_get_def
      array_fill_def truthy_def)

text \<open>
  Claim C9. The events created by a run of constructor calls receive the consecutive
  identifiers that start at \<open>id_incrementer\<close>: they are pairwise distinct and strictly
  increasing, the counter ends past the last of them, and each event is registered
  under its identifier. \<open>reset\<close> sets the counter to \<open>0\<close> and empties the identity
  registry. A map load, which resets once and then creates the \<open>n\<close> events of the map,
  hands out the identifiers \<open>0\<close> to \<open>n - 1\<close>, none of them twice, and leaves exactly these
  in the identity registry. Identifiers are natural numbers; JavaScript counts exactly up
  to \<open>2\<^sup>5\<^sup>3\<close>.
\<close>

theorem tile_event_ids:
  "map id_te (fst (create_events ad as st))
     = [id_incrementer st ..< id_incrementer st + length as]
   \<and> distinct (map id_te (fst (create_events ad as st)))
   \<and> sorted_wrt (<) (map id_te (fst (create_events ad as st)))
   \<and> id_incrementer (snd (create_events ad as st)) = id_incrementer st + length as
   \<and> map (events (snd (create_events ad as st))) (map id_te (fst (create_events ad as st)))
       = map Some (fst (create_events ad as st))
   \<and> id_incrementer (reset st) = 0 \<and> events (reset st) = Map.empty
   \<and> map id_te (fst (load_map ad as st)) = [0 ..< length as]
   \<and> id_incrementer (snd (load_map ad as st)) = length as
   \<and> dom (events (snd (load_map ad as st))) = {0 ..< length as}"
  using create_events_ids[of ad as st] create_events_ids[of ad as "reset st"]
    create_events_registered[of ad as st] create_events_dom[of ad as "reset st"]
  by (simp add: load_map_def reset_def)

text \<open>
  Claim C10. Whenever \<open>normal_push\<close> returns, whether the push movement was started or
  not, \<open>trying_to_push\<close> is false and \<open>push_timer\<close> is \<open>null\<close>. It does return (the
  relocation does not throw) when the events of the object are distinct, have distinct
  identifiers and are each in the bucket under their key.
\<close>

theorem normal_push_consumes_request:
  "(normal_push U s io = Inr (s', io', p) \<longrightarrow> \<not> trying_to_push s' \<and> push_timer s' = None)
   \<and> (activation_only U \<and> distinct (object_events io)
        \<and> inj_on (\<lambda>q. id_te (heap s q)) (set (object_events io))
        \<and> (\<forall>ev \<in> set (object_events io). in_bucket s (location_key (heap s ev)) ev)
      \<longrightarrow> (\<exists>s1 io1 p1. normal_push U s io = Inr (s1, io1, p1)
             \<and> \<not> trying_to_push s1 \<and> push_timer s1 = None))"
proof (intro conjI impI)
  assume "normal_push U s io = Inr (s', io', p)"
  then show "\<not> trying_to_push s'" and "push_timer s' = None"
    by (auto simp: normal_push_def split: if_splits sum.splits)
next
  assume wf: "activation_only U \<and> distinct (object_events io)
        \<and> inj_on (\<lambda>q. id_te (heap s q)) (set (object_events io))
        \<and> (\<forall>ev \<in> set (object_events io). in_bucket s (location_key (heap s ev)) ev)"
  then obtain s1 io1 p1 where n: "normal_push U s io = Inr (s1, io1, p1)"
    using normal_push_returns[of U io s] by blast
  then have "\<not> trying_to_push s1 \<and> push_timer s1 = None"
    by (auto simp: normal_push_def split: if_splits sum.splits)
  then show "\<exists>s1 io1 p1. normal_push U s io = Inr (s1, io1, p1)
             \<and> \<not> trying_to_push s1 \<and> push_timer s1 = None"
    using n by blast
qed

text \<open>In the scene the push goes ahead, and the request is consumed.\<close>

theorem normal_push_consumes_request_witness:
  "\<exists>s' io' j. normal_push scene_utils scene_data scene_object = Inr (s', io', Some j)
     \<and> \<not> trying_to_push s' \<and> push_timer s' = None"
proof -
  obtain s1 io' j where f: "fire_push_movement scene_utils scene_data scene_object False False False
                  = Inr (s1, io', Some j)"
    using scene_eval by blast
  have n: "normal_push scene_utils scene_data scene_object
           = Inr (s1\<lparr>trying_to_push := False, push_timer := None\<rparr>, io', Some j)"
    using f by (simp add: normal_push_def scene_data_def)
  show ?thesis
    using normal_push_consumes_request[of scene_utils scene_data scene_object
        "s1\<lparr>trying_to_push := False, push_timer := None\<rparr>" io' "Some j"] n
    by blast
qed

end
